theory Spec2Isabelle
  imports Complex_Main "HOL-Library.Sublist" "HOL-Library.Word" "HOL-Library.Log_Nat"
begin

section \<open>Data model (types.ts)\<close>

text \<open>
  The finite JavaScript numbers are rationals (\<open>rat\<close>); the non-finite values
  \<open>NaN\<close> and \<open>Infinity\<close> are written out where the source tests for them.
  In \<open>formatDuration\<close> the quotient is rounded to a double as IEEE 754 does; the
  timer and the visualizer compute with the exact quotient.
  Strings are byte lists; the Cyrillic literals of the source are given by their
  UTF-8 bytes. \<open>Date.now()\<close> is a clock in milliseconds held in the state.
\<close>

datatype TranscriptionStatus = IDLE | LOADING | SUCCESS | ERROR

record Blob =
  bytes :: "8 word list"
  type :: string

record File =
  file_name :: string
  file_blob :: Blob

record Recording =
  id_r :: string
  blob :: Blob
  url :: string
  timestamp :: nat
  duration :: rat
  transcript :: "string option"
  status :: TranscriptionStatus
  error :: "string option"
  name :: "string option"

section \<open>String helpers of the JavaScript runtime\<close>

text \<open>\<open>a || b\<close> on strings: the empty string is the only falsy string.\<close>

definition js_or :: "string \<Rightarrow> string \<Rightarrow> string" where
  "js_or a b = (if a = [] then b else a)"

text \<open>\<open>s.padStart(n, c)\<close> with a one-character pad string.\<close>

definition padStart :: "nat \<Rightarrow> char \<Rightarrow> string \<Rightarrow> string" where
  "padStart n c s = replicate (n - length s) c @ s"

definition digit_char :: "nat \<Rightarrow> char" where
  "digit_char d = char_of (48 + d)"

function decimal :: "nat \<Rightarrow> string" where
  "decimal n = (if n < 10 then [digit_char n] else decimal (n div 10) @ [digit_char (n mod 10)])"
  by pat_completeness auto
termination
  by (relation "measure (\<lambda>n. n)") auto

declare decimal.simps [simp del]

text \<open>
  \<open>Number.prototype.toString\<close> on an integral value: below \<open>2^53\<close> in magnitude every
  integer is a double of its own and is printed with all its decimal digits, with a
  leading minus sign when negative. From \<open>2^53\<close> on JavaScript prints the shortest
  digits that read back as the same double, padded with zeros, and from \<open>10^21\<close> on
  exponent notation; the renderer \<open>large\<close> of these values is a parameter.
\<close>

definition number_toString :: "(int \<Rightarrow> string) \<Rightarrow> int \<Rightarrow> string" where
  "number_toString large n =
     (if \<bar>n\<bar> < 2 ^ 53
      then (if n < 0 then CHR ''-'' # decimal (nat (- n)) else decimal (nat n))
      else large n)"

text \<open>
  The number a string of decimal digits denotes, and the strings that are decimal
  numerals: not empty, digits only, no leading zero but in \<open>0\<close> itself.
\<close>

definition digit_value :: "char \<Rightarrow> nat" where
  "digit_value c = of_char c - 48"

definition decimal_value :: "string \<Rightarrow> nat" where
  "decimal_value ds = foldl (\<lambda>a c. 10 * a + digit_value c) 0 ds"

definition decimal_numeral :: "string \<Rightarrow> bool" where
  "decimal_numeral ds =
     (ds \<noteq> [] \<and> (\<forall>c \<in> set ds. c \<in> set ''0123456789'') \<and> (hd ds = CHR ''0'' \<longrightarrow> ds = ''0''))"

section \<open>IEEE 754 doubles\<close>

text \<open>
  \<open>binade x\<close> is the exponent \<open>e\<close> with \<open>2^e \<le> x < 2^(e+1)\<close> of a positive \<open>x\<close>.
  A double has 53 significant bits, so the doubles next to \<open>x\<close> are \<open>ulp x\<close> apart;
  below \<open>2^(-1022)\<close> the spacing stays that of the subnormal numbers.
  \<open>round_double\<close> is the rounding of an arithmetic result to the nearest double, ties
  to the even significand. Results are finite: the quotient of a double by 60 does
  not overflow.
\<close>

definition binade :: "rat \<Rightarrow> int" where
  "binade x = (if 1 \<le> x then bitlen \<lfloor>x\<rfloor> - 1 else - bitlen (\<lceil>1 / x\<rceil> - 1))"

definition ulp :: "rat \<Rightarrow> rat" where
  "ulp x = 2 powi (max (binade \<bar>x\<bar>) (- 1022) - 52)"

definition round_half_even :: "rat \<Rightarrow> int" where
  "round_half_even y =
     (let f = \<lfloor>y\<rfloor>; d = y - of_int f
      in if d < 1 / 2 then f else if 1 / 2 < d then f + 1 else if even f then f else f + 1)"

definition round_double :: "rat \<Rightarrow> rat" where
  "round_double x = (if x = 0 then 0 else of_int (round_half_even (x / ulp x)) * ulp x)"

text \<open>The rationals that are doubles.\<close>

definition is_double :: "rat \<Rightarrow> bool" where
  "is_double x = (round_double x = x)"

text \<open>
  \<open>a % b\<close>: the remainder of the division truncated towards zero. It is exact: the
  remainder of two doubles is a double.
\<close>

definition js_trunc :: "rat \<Rightarrow> int" where
  "js_trunc x = (if 0 \<le> x then \<lfloor>x\<rfloor> else \<lceil>x\<rceil>)"

definition js_rem :: "rat \<Rightarrow> rat \<Rightarrow> rat" where
  "js_rem a b = a - b * of_int (js_trunc (a / b))"

section \<open>utils/audioUtils.ts\<close>

text \<open>
  \<open>formatDuration\<close>: \<open>seconds / 60\<close> is a double division, so its result is rounded
  before \<open>Math.floor\<close> sees it; \<open>Math.floor\<close> and \<open>%\<close> are exact.
\<close>

definition formatDuration :: "(int \<Rightarrow> string) \<Rightarrow> rat \<Rightarrow> string" where
  "formatDuration large seconds =
     (let mins = \<lfloor>round_double (seconds / 60)\<rfloor>;
          secs = \<lfloor>js_rem seconds 60\<rfloor>
      in number_toString large mins @ '':'' @ padStart 2 CHR ''0'' (number_toString large secs))"

text \<open>
  The claimed rendering, in the specification's words: the decimal numeral of
  \<open>floor(s / 60)\<close>, a colon, and \<open>floor(s mod 60)\<close> as exactly two decimal digits.
\<close>

definition spec_mod :: "rat \<Rightarrow> rat \<Rightarrow> rat" where
  "spec_mod s m = s - m * of_int \<lfloor>s / m\<rfloor>"

definition two_digits :: "nat \<Rightarrow> string" where
  "two_digits k = [digit_char (k div 10), digit_char (k mod 10)]"

definition formatDuration_spec :: "rat \<Rightarrow> string" where
  "formatDuration_spec s =
     decimal (nat \<lfloor>s / 60\<rfloor>) @ '':'' @ two_digits (nat \<lfloor>spec_mod s 60\<rfloor>)"

text \<open>
  What the audio element reports for a file: its metadata with a duration
  (\<open>None\<close> for \<open>Infinity\<close>), or a load error.
\<close>

datatype AudioMetadata = LoadedMetadata "rat option" | LoadError

text \<open>
  \<open>getAudioDuration\<close> allocates a temporary object URL and revokes it in both
  callbacks; the set of live object URLs is threaded through.
\<close>

definition getAudioDuration :: "string \<Rightarrow> AudioMetadata \<Rightarrow> string set \<Rightarrow> rat \<times> string set" where
  "getAudioDuration tmp_url meta urls =
     (let urls1 = insert tmp_url urls
      in case meta of
           LoadedMetadata d \<Rightarrow> ((case d of None \<Rightarrow> 0 | Some x \<Rightarrow> x), urls1 - {tmp_url})
         | LoadError \<Rightarrow> (0, urls1 - {tmp_url}))"

section \<open>services/geminiService.ts\<close>

definition no_transcript_text :: string where
  "no_transcript_text =
    [CHR 0xD0, CHR 0xA2, CHR 0xD1, CHR 0x80, CHR 0xD0, CHR 0xB0, CHR 0xD0, CHR 0xBD,
     CHR 0xD1, CHR 0x81, CHR 0xD0, CHR 0xBA, CHR 0xD1, CHR 0x80, CHR 0xD0, CHR 0xB8,
     CHR 0xD0, CHR 0xBF, CHR 0xD1, CHR 0x86, CHR 0xD0, CHR 0xB8, CHR 0xD1, CHR 0x8F,
     CHR 0x20, CHR 0xD0, CHR 0xBD, CHR 0xD0, CHR 0xB5, CHR 0x20, CHR 0xD1, CHR 0x81,
     CHR 0xD0, CHR 0xBE, CHR 0xD0, CHR 0xB7, CHR 0xD0, CHR 0xB4, CHR 0xD0, CHR 0xB0,
     CHR 0xD0, CHR 0xBD, CHR 0xD0, CHR 0xB0, CHR 0x2E]"

definition audio_failed_message :: string where
  "audio_failed_message =
    [CHR 0xD0, CHR 0x9D, CHR 0xD0, CHR 0xB5, CHR 0x20, CHR 0xD1, CHR 0x83, CHR 0xD0,
     CHR 0xB4, CHR 0xD0, CHR 0xB0, CHR 0xD0, CHR 0xBB, CHR 0xD0, CHR 0xBE, CHR 0xD1,
     CHR 0x81, CHR 0xD1, CHR 0x8C, CHR 0x20, CHR 0xD1, CHR 0x82, CHR 0xD1, CHR 0x80,
     CHR 0xD0, CHR 0xB0, CHR 0xD0, CHR 0xBD, CHR 0xD1, CHR 0x81, CHR 0xD0, CHR 0xBA,
     CHR 0xD1, CHR 0x80, CHR 0xD0, CHR 0xB8, CHR 0xD0, CHR 0xB1, CHR 0xD0, CHR 0xB8,
     CHR 0xD1, CHR 0x80, CHR 0xD0, CHR 0xBE, CHR 0xD0, CHR 0xB2, CHR 0xD0, CHR 0xB0,
     CHR 0xD1, CHR 0x82, CHR 0xD1, CHR 0x8C, CHR 0x20, CHR 0xD0, CHR 0xB0, CHR 0xD1,
     CHR 0x83, CHR 0xD0, CHR 0xB4, CHR 0xD0, CHR 0xB8, CHR 0xD0, CHR 0xBE, CHR 0x2E]"

text \<open>
  The inline-data part of the request to \<open>ai.models.generateContent\<close>. The model name
  is carried along; the prompt text and the temperature are constants of the call.
\<close>

record InlineRequest =
  model :: string
  mimeType :: string
  data :: string

definition transcribeAudio_request :: "Blob \<Rightarrow> string \<Rightarrow> InlineRequest" where
  "transcribeAudio_request audioBlob base64Audio =
     (let mimeType = js_or (type audioBlob) ''audio/webm''
      in \<lparr>model = ''gemini-2.5-flash'', mimeType = mimeType, data = base64Audio\<rparr>)"

text \<open>
  \<open>transcribeAudio\<close>: the file reader (\<open>blobToBase64\<close>) and the endpoint are the
  environment; each either throws an error with a message (\<open>Inl\<close>) or returns.
  The endpoint's response text may be absent. An error is rethrown with its own
  message, or the default one when that is empty.
\<close>

definition transcribeAudio ::
    "(Blob \<Rightarrow> string + string) \<Rightarrow> (InlineRequest \<Rightarrow> string + string option) \<Rightarrow> Blob
      \<Rightarrow> string + string" where
  "transcribeAudio blobToBase64 generateContent audioBlob =
     (case blobToBase64 audioBlob of
        Inl message \<Rightarrow> Inl (js_or message audio_failed_message)
      | Inr base64Audio \<Rightarrow>
          (case generateContent (transcribeAudio_request audioBlob base64Audio) of
             Inl message \<Rightarrow> Inl (js_or message audio_failed_message)
           | Inr response_text \<Rightarrow>
               Inr (js_or (case response_text of None \<Rightarrow> [] | Some t \<Rightarrow> t) no_transcript_text)))"

section \<open>App.tsx: state and handlers\<close>

definition permission_denied_message :: string where
  "permission_denied_message =
    [CHR 0xD0, CHR 0x94, CHR 0xD0, CHR 0xBE, CHR 0xD1, CHR 0x81, CHR 0xD1, CHR 0x82,
     CHR 0xD1, CHR 0x83, CHR 0xD0, CHR 0xBF, CHR 0x20, CHR 0xD0, CHR 0xBA, CHR 0x20,
     CHR 0xD0, CHR 0xBC, CHR 0xD0, CHR 0xB8, CHR 0xD0, CHR 0xBA, CHR 0xD1, CHR 0x80,
     CHR 0xD0, CHR 0xBE, CHR 0xD1, CHR 0x84, CHR 0xD0, CHR 0xBE, CHR 0xD0, CHR 0xBD,
     CHR 0xD1, CHR 0x83, CHR 0x20, CHR 0xD0, CHR 0xB7, CHR 0xD0, CHR 0xB0, CHR 0xD0,
     CHR 0xBF, CHR 0xD1, CHR 0x80, CHR 0xD0, CHR 0xB5, CHR 0xD1, CHR 0x89, CHR 0xD0,
     CHR 0xB5, CHR 0xD0, CHR 0xBD, CHR 0x2E, CHR 0x20, CHR 0xD0, CHR 0x9F, CHR 0xD0,
     CHR 0xBE, CHR 0xD0, CHR 0xB6, CHR 0xD0, CHR 0xB0, CHR 0xD0, CHR 0xBB, CHR 0xD1,
     CHR 0x83, CHR 0xD0, CHR 0xB9, CHR 0xD1, CHR 0x81, CHR 0xD1, CHR 0x82, CHR 0xD0,
     CHR 0xB0, CHR 0x2C, CHR 0x20, CHR 0xD1, CHR 0x80, CHR 0xD0, CHR 0xB0, CHR 0xD0,
     CHR 0xB7, CHR 0xD1, CHR 0x80, CHR 0xD0, CHR 0xB5, CHR 0xD1, CHR 0x88, CHR 0xD0,
     CHR 0xB8, CHR 0xD1, CHR 0x82, CHR 0xD0, CHR 0xB5, CHR 0x20, CHR 0xD0, CHR 0xB4,
     CHR 0xD0, CHR 0xBE, CHR 0xD1, CHR 0x81, CHR 0xD1, CHR 0x82, CHR 0xD1, CHR 0x83,
     CHR 0xD0, CHR 0xBF, CHR 0x20, CHR 0xD0, CHR 0xB4, CHR 0xD0, CHR 0xBB, CHR 0xD1,
     CHR 0x8F, CHR 0x20, CHR 0xD0, CHR 0xB7, CHR 0xD0, CHR 0xB0, CHR 0xD0, CHR 0xBF,
     CHR 0xD0, CHR 0xB8, CHR 0xD1, CHR 0x81, CHR 0xD0, CHR 0xB8, CHR 0x2E]"

definition transcribe_failed_message :: string where
  "transcribe_failed_message =
    [CHR 0xD0, CHR 0x9D, CHR 0xD0, CHR 0xB5, CHR 0x20, CHR 0xD1, CHR 0x83, CHR 0xD0,
     CHR 0xB4, CHR 0xD0, CHR 0xB0, CHR 0xD0, CHR 0xBB, CHR 0xD0, CHR 0xBE, CHR 0xD1,
     CHR 0x81, CHR 0xD1, CHR 0x8C, CHR 0x20, CHR 0xD1, CHR 0x82, CHR 0xD1, CHR 0x80,
     CHR 0xD0, CHR 0xB0, CHR 0xD0, CHR 0xBD, CHR 0xD1, CHR 0x81, CHR 0xD0, CHR 0xBA,
     CHR 0xD1, CHR 0x80, CHR 0xD0, CHR 0xB8, CHR 0xD0, CHR 0xB1, CHR 0xD0, CHR 0xB8,
     CHR 0xD1, CHR 0x80, CHR 0xD0, CHR 0xBE, CHR 0xD0, CHR 0xB2, CHR 0xD0, CHR 0xB0,
     CHR 0xD1, CHR 0x82, CHR 0xD1, CHR 0x8C, CHR 0x2E]"

type_synonym MediaStream = nat

datatype RecordingState = Rec_recording | Rec_stopping | Rec_inactive

text \<open>
  The \<open>MediaRecorder\<close> object made by \<open>startRecording\<close>. Its \<open>onstop\<close> handler is a
  closure created inside that call: it holds the \<open>stream\<close> and the \<open>recordingTime\<close>
  constant of the render in which \<open>startRecording\<close> was created, and keeps them
  whatever the component renders later. \<open>Rec_stopping\<close> is the time between \<open>stop()\<close>
  and the delivery of the stop event.
\<close>

record MediaRecorder =
  state :: RecordingState
  onstop_recordingTime :: rat
  onstop_stream :: MediaStream

text \<open>
  The component state (\<open>useState\<close>), the refs (\<open>useRef\<close>) and the part of the browser
  the handlers act on: the clock read by \<open>Date.now()\<close>, the set of live object URLs,
  and the transcription calls that are awaited (id and blob of each).
  \<open>timerRef\<close> holds the \<open>startTime\<close> of the running interval callback.
\<close>

record App =
  isRecording :: bool
  recordings :: "Recording list"
  recordingTime :: rat
  mediaStream :: "MediaStream option"
  permissionError :: "string option"
  mediaRecorderRef :: "MediaRecorder option"
  chunksRef :: "Blob list"
  timerRef :: "nat option"
  clock :: nat
  objectURLs :: "string set"
  pending :: "(string \<times> Blob) list"

definition initial_App :: App where
  "initial_App =
     \<lparr>isRecording = False, recordings = [], recordingTime = 0, mediaStream = None,
      permissionError = None, mediaRecorderRef = None, chunksRef = [], timerRef = None,
      clock = 0, objectURLs = {}, pending = []\<rparr>"

text \<open>\<open>startRecording\<close>; \<open>granted\<close> is the outcome of \<open>getUserMedia\<close>.\<close>

definition startRecording :: "MediaStream option \<Rightarrow> App \<Rightarrow> App" where
  "startRecording granted s =
     (case granted of
        None \<Rightarrow> s\<lparr>permissionError := Some permission_denied_message\<rparr>
      | Some stream \<Rightarrow>
          s\<lparr>permissionError := None,
            mediaStream := Some stream,
            mediaRecorderRef :=
              Some \<lparr>state = Rec_recording, onstop_recordingTime = recordingTime s,
                    onstop_stream = stream\<rparr>,
            chunksRef := [],
            isRecording := True,
            timerRef := Some (clock s)\<rparr>)"

text \<open>The interval callback: \<open>setRecordingTime((Date.now() - startTime) / 1000)\<close>.\<close>

definition timer_tick :: "App \<Rightarrow> App" where
  "timer_tick s =
     (case timerRef s of
        None \<Rightarrow> s
      | Some startTime \<Rightarrow> s\<lparr>recordingTime := (of_nat (clock s) - of_nat startTime) / 1000\<rparr>)"

definition ondataavailable :: "Blob \<Rightarrow> App \<Rightarrow> App" where
  "ondataavailable event_data s =
     (if length (bytes event_data) > 0 then s\<lparr>chunksRef := chunksRef s @ [event_data]\<rparr> else s)"

definition stopRecording :: "App \<Rightarrow> App" where
  "stopRecording s =
     (case mediaRecorderRef s of
        None \<Rightarrow> s
      | Some mr \<Rightarrow>
          if isRecording s
          then s\<lparr>mediaRecorderRef := Some (mr\<lparr>state := Rec_stopping\<rparr>),
                 isRecording := False,
                 timerRef := None\<rparr>
          else s)"

text \<open>
  \<open>mediaRecorder.onstop\<close>; \<open>uuid\<close> is what \<open>uuidv4()\<close> returns and \<open>new_url\<close> what
  \<open>URL.createObjectURL\<close> returns.
\<close>

definition mediaRecorder_onstop :: "string \<Rightarrow> string \<Rightarrow> App \<Rightarrow> App" where
  "mediaRecorder_onstop uuid new_url s =
     (case mediaRecorderRef s of
        None \<Rightarrow> s
      | Some mr \<Rightarrow>
          (let blob = \<lparr>bytes = concat (map bytes (chunksRef s)), type = ''audio/webm''\<rparr>;
               duration = onstop_recordingTime mr;
               newRecording =
                 \<lparr>id_r = uuid, blob = blob, url = new_url, timestamp = clock s,
                  duration = duration, transcript = None, status = IDLE,
                  error = None, name = None\<rparr>
           in s\<lparr>recordings := newRecording # recordings s,
                recordingTime := 0,
                mediaStream := None,
                mediaRecorderRef := Some (mr\<lparr>state := Rec_inactive\<rparr>),
                objectURLs := insert new_url (objectURLs s)\<rparr>))"

definition handleFileChange ::
    "File option \<Rightarrow> string \<Rightarrow> AudioMetadata \<Rightarrow> string \<Rightarrow> string \<Rightarrow> App \<Rightarrow> App" where
  "handleFileChange file tmp_url meta uuid new_url s =
     (case file of
        None \<Rightarrow> s
      | Some f \<Rightarrow>
          (let (duration, urls) = getAudioDuration tmp_url meta (objectURLs s);
               newRecording =
                 \<lparr>id_r = uuid, blob = file_blob f, url = new_url, timestamp = clock s,
                  duration = duration, transcript = None, status = IDLE,
                  error = None, name = Some (file_name f)\<rparr>
           in s\<lparr>recordings := newRecording # recordings s,
                objectURLs := insert new_url urls\<rparr>))"

text \<open>
  \<open>handleTranscribe\<close> up to its \<open>await\<close>: the lookup, the update to \<open>LOADING\<close>, and the
  call of \<open>transcribeAudio\<close> that is now awaited.
\<close>

definition handleTranscribe :: "string \<Rightarrow> App \<Rightarrow> App" where
  "handleTranscribe i s =
     (case find (\<lambda>r. id_r r = i) (recordings s) of
        None \<Rightarrow> s
      | Some recording \<Rightarrow>
          s\<lparr>recordings :=
              map (\<lambda>r. if id_r r = i then r\<lparr>status := LOADING, error := None\<rparr> else r)
                (recordings s),
            pending := pending s @ [(i, blob recording)]\<rparr>)"

text \<open>
  \<open>handleTranscribe\<close> after the \<open>await\<close>: \<open>outcome\<close> is what \<open>transcribeAudio\<close> gave,
  \<open>Inr\<close> the transcript or \<open>Inl\<close> the message of the error it threw.
\<close>

definition handleTranscribe_settled :: "string \<Rightarrow> Blob \<Rightarrow> string + string \<Rightarrow> App \<Rightarrow> App" where
  "handleTranscribe_settled i b outcome s =
     (case outcome of
        Inr transcript' \<Rightarrow>
          s\<lparr>recordings :=
              map (\<lambda>r. if id_r r = i
                        then r\<lparr>status := SUCCESS, transcript := Some transcript'\<rparr> else r)
                (recordings s),
            pending := remove1 (i, b) (pending s)\<rparr>
      | Inl message \<Rightarrow>
          s\<lparr>recordings :=
              map (\<lambda>r. if id_r r = i
                        then r\<lparr>status := ERROR, error := Some transcribe_failed_message\<rparr> else r)
                (recordings s),
            pending := remove1 (i, b) (pending s)\<rparr>)"

definition handleDelete :: "string \<Rightarrow> App \<Rightarrow> App" where
  "handleDelete i s = s\<lparr>recordings := filter (\<lambda>r. id_r r \<noteq> i) (recordings s)\<rparr>"

section \<open>RecordingItem.tsx\<close>

definition RecordingItem_handleTranscribe :: "Recording \<Rightarrow> App \<Rightarrow> App" where
  "RecordingItem_handleTranscribe recording s =
     (if status recording = IDLE \<or> status recording = ERROR
      then handleTranscribe (id_r recording) s
      else s)"

section \<open>The event loop\<close>

text \<open>
  \<open>uuidv4()\<close> returns an identifier that no recording in the list and no awaited
  transcription carries.
\<close>

definition fresh_id :: "string \<Rightarrow> App \<Rightarrow> bool" where
  "fresh_id u s = (u \<notin> set (map id_r (recordings s)) \<and> u \<notin> set (map fst (pending s)))"

text \<open>
  One turn of the browser's event loop. Time passes; the record button is shown while
  \<open>isRecording\<close> is false and the stop button while it is true; the recorder delivers
  data and, after \<open>stop()\<close>, its stop event (before the next capture starts); the
  transcribe and delete buttons belong to a rendered list item; an awaited
  \<open>transcribeAudio\<close> call settles with whatever the file reader and the endpoint do.
\<close>

inductive step :: "App \<Rightarrow> App \<Rightarrow> bool" where
  time_passes: "step s (s\<lparr>clock := clock s + d\<rparr>)"
| start_click:
    "\<not> isRecording s \<Longrightarrow>
     (\<forall>mr. mediaRecorderRef s = Some mr \<longrightarrow> state mr = Rec_inactive) \<Longrightarrow>
     step s (startRecording granted s)"
| interval: "step s (timer_tick s)"
| data_event:
    "mediaRecorderRef s = Some mr \<Longrightarrow> state mr \<noteq> Rec_inactive \<Longrightarrow>
     step s (ondataavailable event_data s)"
| stop_click: "isRecording s \<Longrightarrow> step s (stopRecording s)"
| stop_event:
    "mediaRecorderRef s = Some mr \<Longrightarrow> state mr = Rec_stopping \<Longrightarrow>
     fresh_id uuid s \<Longrightarrow> new_url \<notin> objectURLs s \<Longrightarrow>
     step s (mediaRecorder_onstop uuid new_url s)"
| file_chosen:
    "fresh_id uuid s \<Longrightarrow> tmp_url \<notin> objectURLs s \<Longrightarrow> new_url \<notin> objectURLs s \<Longrightarrow>
     step s (handleFileChange file tmp_url meta uuid new_url s)"
| transcribe_click:
    "recording \<in> set (recordings s) \<Longrightarrow> step s (RecordingItem_handleTranscribe recording s)"
| transcribe_settles:
    "(i, b) \<in> set (pending s) \<Longrightarrow>
     step s (handleTranscribe_settled i b (transcribeAudio reader endpoint b) s)"
| delete_click:
    "recording \<in> set (recordings s) \<Longrightarrow> step s (handleDelete (id_r recording) s)"

inductive reachable :: "App \<Rightarrow> bool" where
  reachable_initial: "reachable initial_App"
| reachable_step: "reachable s \<Longrightarrow> step s s' \<Longrightarrow> reachable s'"

text \<open>The status of the recording with a given id, if the list has one.\<close>

definition status_of :: "string \<Rightarrow> App \<Rightarrow> TranscriptionStatus option" where
  "status_of i s = map_option status (find (\<lambda>r. id_r r = i) (recordings s))"

text \<open>The transitions the transcription flow is said to make.\<close>

definition flow_transition :: "TranscriptionStatus \<Rightarrow> TranscriptionStatus \<Rightarrow> bool" where
  "flow_transition a b =
     ((a = IDLE \<or> a = ERROR) \<and> b = LOADING \<or> a = LOADING \<and> (b = SUCCESS \<or> b = ERROR))"

section \<open>AudioVisualizer.tsx\<close>

datatype CanvasOp =
    ClearRect rat rat rat rat
  | FillStyleGradient rat rat rat rat
  | FillRoundRect rat rat rat rat rat

text \<open>The body of the \<open>for\<close> loop of \<open>draw\<close>, over the bins from the current one on.\<close>

fun draw_bars :: "rat \<Rightarrow> rat \<Rightarrow> rat \<Rightarrow> 8 word list \<Rightarrow> CanvasOp list" where
  "draw_bars height barWidth x [] = []"
| "draw_bars height barWidth x (v # dataArray) =
     (let barHeight = of_nat (unat v) / 1.5
      in FillStyleGradient 0 height 0 (height - barHeight) #
         (if barHeight > 0
          then [FillRoundRect x (height - barHeight) barWidth barHeight 4]
          else []) @
         draw_bars height barWidth (x + barWidth + 1) dataArray)"

text \<open>
  One call of \<open>draw\<close>: \<open>dataArray\<close> is what \<open>getByteFrequencyData\<close> wrote, one byte for
  each of the \<open>bufferLength\<close> bins; \<open>width\<close> and \<open>height\<close> are the canvas's.
\<close>

definition draw :: "bool \<Rightarrow> rat \<Rightarrow> rat \<Rightarrow> 8 word list \<Rightarrow> CanvasOp list" where
  "draw isRecording' width height dataArray =
     (if \<not> isRecording' then []
      else
        (let bufferLength = length dataArray;
             barWidth = (width / of_nat bufferLength) * 2.5
         in ClearRect 0 0 width height # draw_bars height barWidth 0 dataArray))"

text \<open>The heights of the bars of a frame, in the order they were filled.\<close>

fun bar_heights :: "CanvasOp list \<Rightarrow> rat list" where
  "bar_heights [] = []"
| "bar_heights (FillRoundRect x y w h r # ops) = h # bar_heights ops"
| "bar_heights (_ # ops) = bar_heights ops"

section \<open>Sample values\<close>

definition sample_blob :: Blob where
  "sample_blob = \<lparr>bytes = [1, 2, 3], type = ''audio/mpeg''\<rparr>"

definition sample_file :: File where
  "sample_file = \<lparr>file_name = ''memo.mp3'', file_blob = sample_blob\<rparr>"

definition sample_recording :: "string \<Rightarrow> nat \<Rightarrow> TranscriptionStatus \<Rightarrow> Recording" where
  "sample_recording i t st =
     \<lparr>id_r = i, blob = sample_blob, url = ''blob:'' @ i, timestamp = t, duration = 3,
      transcript = None, status = st, error = None, name = None\<rparr>"

definition sample_App :: App where
  "sample_App = initial_App\<lparr>recordings :=
      [sample_recording ''c'' 30 IDLE, sample_recording ''b'' 20 LOADING,
       sample_recording ''a'' 10 SUCCESS],
      clock := 40, objectURLs := {''blob:a'', ''blob:b'', ''blob:c''},
      pending := [(''b'', sample_blob)]\<rparr>"

section \<open>Invariants of the event loop\<close>

text \<open>
  Identifiers are unique in the list and among the awaited transcriptions, and a
  recording whose transcription is awaited is \<open>LOADING\<close>.
\<close>

definition flow_inv :: "App \<Rightarrow> bool" where
  "flow_inv s =
     (distinct (map id_r (recordings s)) \<and> distinct (map fst (pending s)) \<and>
      (\<forall>r \<in> set (recordings s). id_r r \<in> set (map fst (pending s)) \<longrightarrow> status r = LOADING))"

definition newest_first :: "Recording list \<Rightarrow> bool" where
  "newest_first rs = sorted_wrt (\<lambda>a b. timestamp b \<le> timestamp a) rs"

definition time_inv :: "App \<Rightarrow> bool" where
  "time_inv s =
     (newest_first (recordings s) \<and> (\<forall>r \<in> set (recordings s). timestamp r \<le> clock s))"

text \<open>Two lists hold the same recordings, by id and creation time, in the same order.\<close>

definition same_order :: "Recording list \<Rightarrow> Recording list \<Rightarrow> bool" where
  "same_order rs' rs = (map id_r rs' = map id_r rs \<and> map timestamp rs' = map timestamp rs)"

definition url_inv :: "App \<Rightarrow> bool" where
  "url_inv s = (\<forall>r \<in> set (recordings s). url r \<in> objectURLs s)"

section \<open>Sample runs\<close>

text \<open>A file is chosen one second after the page was loaded; then its item's
  transcribe button is clicked.\<close>

definition sample_uploaded :: App where
  "sample_uploaded =
     handleFileChange (Some sample_file) ''blob:tmp'' (LoadedMetadata (Some 3)) ''id-1'' ''blob:1''
       (initial_App\<lparr>clock := clock initial_App + 1000\<rparr>)"

definition sample_loading :: App where
  "sample_loading =
     RecordingItem_handleTranscribe (hd (recordings sample_uploaded)) sample_uploaded"

text \<open>
  A capture: the record button is clicked, five seconds pass and the interval
  callback runs, the stop button is clicked, and the recorder delivers its stop event.
\<close>

definition capture_started :: App where
  "capture_started = startRecording (Some 1) initial_App"

definition capture_ticked :: App where
  "capture_ticked = timer_tick (capture_started\<lparr>clock := clock capture_started + 5000\<rparr>)"

definition capture_stopped :: App where
  "capture_stopped = stopRecording capture_ticked"

definition capture_finished :: App where
  "capture_finished = mediaRecorder_onstop ''id-1'' ''blob:1'' capture_stopped"

section \<open>Deleting a recording\<close>

lemma count_list_filter:
  "count_list (filter P xs) r = (if P r then count_list xs r else 0)"
  by (induction xs) auto

text \<open>
  C10. For every recordings list and every id, \<open>handleDelete\<close> removes exactly the
  recordings whose id equals the given id: every other recording stays, as often as
  it occurred and with all its fields, in the same relative order; if no recording
  has that id, the list is unchanged.
\<close>

theorem C10_handleDelete_removes_exactly:
  "(\<forall>r. count_list (recordings (handleDelete i s)) r =
          (if id_r r = i then 0 else count_list (recordings s) r))
   \<and> subseq (recordings (handleDelete i s)) (recordings s)
   \<and> (i \<notin> set (map id_r (recordings s)) \<longrightarrow> recordings (handleDelete i s) = recordings s)"
proof (intro conjI allI impI)
  fix r
  show "count_list (recordings (handleDelete i s)) r =
          (if id_r r = i then 0 else count_list (recordings s) r)"
    by (simp add: handleDelete_def count_list_filter)
next
  show "subseq (recordings (handleDelete i s)) (recordings s)"
    by (simp add: handleDelete_def)
next
  assume "i \<notin> set (map id_r (recordings s))"
  then have "filter (\<lambda>r. id_r r \<noteq> i) (recordings s) = recordings s"
    by (auto simp: filter_id_conv)
  then show "recordings (handleDelete i s) = recordings s"
    by (simp add: handleDelete_def)
qed

theorem C10_handleDelete_witness:
  "''z'' \<notin> set (map id_r (recordings sample_App))
   \<and> recordings (handleDelete ''z'' sample_App) = recordings sample_App
   \<and> subseq (recordings (handleDelete ''b'' sample_App)) (recordings sample_App)
   \<and> recordings (handleDelete ''b'' sample_App) =
       [sample_recording ''c'' 30 IDLE, sample_recording ''a'' 10 SUCCESS]"
  using C10_handleDelete_removes_exactly [of "''z''" sample_App]
    C10_handleDelete_removes_exactly [of "''b''" sample_App]
  by (simp add: handleDelete_def sample_App_def sample_recording_def)

section \<open>The updates of the transcription flow\<close>

lemma map_if_absent:
  "\<forall>r \<in> set xs. \<not> P r \<Longrightarrow> map (\<lambda>r. if P r then f r else r) xs = xs"
  by (induction xs) auto

lemma handleTranscribe_recordings:
  "recordings (handleTranscribe i s) =
     map (\<lambda>r. if id_r r = i then r\<lparr>status := LOADING, error := None\<rparr> else r) (recordings s)"
proof (cases "find (\<lambda>r. id_r r = i) (recordings s)")
  case None
  then have "\<forall>r \<in> set (recordings s). \<not> id_r r = i"
    by (auto simp: find_None_iff)
  then show ?thesis
    using None by (simp add: handleTranscribe_def map_if_absent)
next
  case (Some a)
  then show ?thesis by (simp add: handleTranscribe_def)
qed

lemma handleTranscribe_pending:
  "pending (handleTranscribe i s) =
     (case find (\<lambda>r. id_r r = i) (recordings s) of
        None \<Rightarrow> pending s | Some r \<Rightarrow> pending s @ [(i, blob r)])"
  by (simp add: handleTranscribe_def split: option.splits)

lemma handleTranscribe_settled_recordings:
  "recordings (handleTranscribe_settled i b outcome s) =
     map (\<lambda>r. if id_r r = i
               then (case outcome of
                       Inr t \<Rightarrow> r\<lparr>status := SUCCESS, transcript := Some t\<rparr>
                     | Inl m \<Rightarrow> r\<lparr>status := ERROR, error := Some transcribe_failed_message\<rparr>)
               else r) (recordings s)"
  by (cases outcome) (simp_all add: handleTranscribe_settled_def)

lemma handleTranscribe_settled_pending:
  "pending (handleTranscribe_settled i b outcome s) = remove1 (i, b) (pending s)"
  by (cases outcome) (simp_all add: handleTranscribe_settled_def)

text \<open>
  C5. Every update made by the transcription flow (to \<open>LOADING\<close> before the await, to
  \<open>SUCCESS\<close> or \<open>ERROR\<close> after it) keeps the length of the list and the order of the
  ids, and leaves every recording whose id is not the requested one as it was; if no
  recording has the requested id, the list is unchanged, so the result of a
  transcription whose recording is gone is dropped.
\<close>

theorem C5_transcription_updates_frame:
  assumes "s' = handleTranscribe i s \<or> s' = handleTranscribe_settled i b outcome s"
  shows "length (recordings s') = length (recordings s)
     \<and> map id_r (recordings s') = map id_r (recordings s)
     \<and> (\<forall>k < length (recordings s).
           id_r (recordings s ! k) \<noteq> i \<longrightarrow> recordings s' ! k = recordings s ! k)
     \<and> (i \<notin> set (map id_r (recordings s)) \<longrightarrow> recordings s' = recordings s)"
proof -
  obtain f where f: "recordings s' = map (\<lambda>r. if id_r r = i then f r else r) (recordings s)"
    and ids: "\<And>r. id_r (f r) = id_r r"
  proof (cases "s' = handleTranscribe i s")
    case True
    show ?thesis
      by (rule that [of "\<lambda>r. r\<lparr>status := LOADING, error := None\<rparr>"])
         (simp_all add: True handleTranscribe_recordings)
  next
    case False
    with assms have s': "s' = handleTranscribe_settled i b outcome s" by simp
    show ?thesis
      by (rule that [of "\<lambda>r. case outcome of
                       Inr t \<Rightarrow> r\<lparr>status := SUCCESS, transcript := Some t\<rparr>
                     | Inl m \<Rightarrow> r\<lparr>status := ERROR, error := Some transcribe_failed_message\<rparr>"])
         (simp_all add: s' handleTranscribe_settled_recordings split: sum.splits)
  qed
  have "length (recordings s') = length (recordings s)"
    by (simp add: f)
  moreover have "map id_r (recordings s') = map id_r (recordings s)"
    by (simp add: f ids cong: map_cong)
  moreover have "\<forall>k < length (recordings s).
           id_r (recordings s ! k) \<noteq> i \<longrightarrow> recordings s' ! k = recordings s ! k"
    by (simp add: f)
  moreover have "i \<notin> set (map id_r (recordings s)) \<longrightarrow> recordings s' = recordings s"
    unfolding f by (auto intro!: map_if_absent [where P = "\<lambda>r. id_r r = i"])
  ultimately show ?thesis by blast
qed

text \<open>
  In the sample list, a transcript arriving for \<open>b\<close> leaves the recordings at positions
  0 and 2 as they were, and one arriving for the absent \<open>z\<close> changes nothing.
\<close>

theorem C5_transcription_updates_witness:
  "recordings (handleTranscribe_settled ''b'' sample_blob (Inr ''hello'') sample_App) ! 0 =
     recordings sample_App ! 0
   \<and> recordings (handleTranscribe_settled ''b'' sample_blob (Inr ''hello'') sample_App) ! 2 =
     recordings sample_App ! 2
   \<and> ''z'' \<notin> set (map id_r (recordings sample_App))
   \<and> recordings (handleTranscribe_settled ''z'' sample_blob (Inr ''hello'') sample_App) =
     recordings sample_App
   \<and> recordings (handleTranscribe ''z'' sample_App) = recordings sample_App"
  using C5_transcription_updates_frame [of
      "handleTranscribe_settled ''b'' sample_blob (Inr ''hello'') sample_App"
      "''b''" sample_App sample_blob "Inr ''hello''"]
    C5_transcription_updates_frame [of
      "handleTranscribe_settled ''z'' sample_blob (Inr ''hello'') sample_App"
      "''z''" sample_App sample_blob "Inr ''hello''"]
    C5_transcription_updates_frame [of "handleTranscribe ''z'' sample_App"
      "''z''" sample_App sample_blob "Inr ''hello''"]
  by (simp add: sample_App_def sample_recording_def)

section \<open>A failed transcription\<close>

lemma transcribeAudio_throws:
  assumes "(\<exists>m. blobToBase64 b = Inl m)
     \<or> (\<exists>d m. blobToBase64 b = Inr d \<and> generateContent (transcribeAudio_request b d) = Inl m)"
  shows "\<exists>m. transcribeAudio blobToBase64 generateContent b = Inl m"
  using assms by (auto simp: transcribeAudio_def)

text \<open>
  C4. When the transcription call fails, because reading the blob throws or because
  the endpoint throws, the flow sets the status of the recording with the requested id
  to \<open>ERROR\<close> and its error message to \<open>transcribe_failed_message\<close>, whatever the
  message of the error that was thrown.
\<close>

theorem C4_failure_sets_static_error:
  assumes "(\<exists>m. blobToBase64 b = Inl m)
     \<or> (\<exists>d m. blobToBase64 b = Inr d \<and> generateContent (transcribeAudio_request b d) = Inl m)"
    and "k < length (recordings s)" and "id_r (recordings s ! k) = i"
  shows "status (recordings
           (handleTranscribe_settled i b (transcribeAudio blobToBase64 generateContent b) s) ! k)
         = ERROR
     \<and> error (recordings
           (handleTranscribe_settled i b (transcribeAudio blobToBase64 generateContent b) s) ! k)
         = Some transcribe_failed_message"
proof -
  from assms(1) obtain m where "transcribeAudio blobToBase64 generateContent b = Inl m"
    using transcribeAudio_throws by blast
  then show ?thesis
    using assms(2,3) by (simp add: handleTranscribe_settled_recordings)
qed

text \<open>
  An endpoint answering \<open>503 overloaded\<close> and a file reader failing with \<open>read failed\<close>
  leave the same message on the recording \<open>b\<close> of the sample list.
\<close>

theorem C4_failure_witness:
  "1 < length (recordings sample_App) \<and> id_r (recordings sample_App ! 1) = ''b''
   \<and> status (recordings (handleTranscribe_settled ''b'' sample_blob
         (transcribeAudio (\<lambda>b. Inr ''AQID'') (\<lambda>request. Inl ''503 overloaded'') sample_blob)
         sample_App) ! 1) = ERROR
   \<and> error (recordings (handleTranscribe_settled ''b'' sample_blob
         (transcribeAudio (\<lambda>b. Inr ''AQID'') (\<lambda>request. Inl ''503 overloaded'') sample_blob)
         sample_App) ! 1) = Some transcribe_failed_message
   \<and> error (recordings (handleTranscribe_settled ''b'' sample_blob
         (transcribeAudio (\<lambda>b. Inl ''read failed'') (\<lambda>request. Inr None) sample_blob)
         sample_App) ! 1) = Some transcribe_failed_message"
  using C4_failure_sets_static_error [of "\<lambda>b. Inr ''AQID''" sample_blob
      "\<lambda>request. Inl ''503 overloaded''" 1 sample_App "''b''"]
    C4_failure_sets_static_error [of "\<lambda>b. Inl ''read failed''" sample_blob
      "\<lambda>request. Inr None" 1 sample_App "''b''"]
  by (simp add: sample_App_def sample_recording_def)

section \<open>The MIME type of a transcription request\<close>

text \<open>
  C9. For every audio blob passed to \<open>transcribeAudio\<close>, the MIME type of the request is
  the blob's own type when that is a non-empty string and \<open>audio/webm\<close> when it is
  empty; an endpoint that answers with the MIME type it received shows that this is
  the value that reaches it.
\<close>

theorem C9_mime_type_sent:
  "(type audioBlob \<noteq> [] \<longrightarrow>
      mimeType (transcribeAudio_request audioBlob base64Audio) = type audioBlob)
   \<and> (type audioBlob = [] \<longrightarrow>
      mimeType (transcribeAudio_request audioBlob base64Audio) = ''audio/webm'')
   \<and> (blobToBase64 audioBlob = Inr base64Audio \<longrightarrow>
      transcribeAudio blobToBase64 (\<lambda>request. Inr (Some (mimeType request))) audioBlob =
        Inr (if type audioBlob = [] then ''audio/webm'' else type audioBlob))"
  by (simp add: transcribeAudio_request_def transcribeAudio_def js_or_def)

text \<open>The sample blob is sent as \<open>audio/mpeg\<close>; with its type emptied, as \<open>audio/webm\<close>.\<close>

theorem C9_mime_type_witness:
  "type sample_blob \<noteq> []
   \<and> mimeType (transcribeAudio_request sample_blob ''AQID'') = ''audio/mpeg''
   \<and> type (sample_blob\<lparr>type := []\<rparr>) = []
   \<and> mimeType (transcribeAudio_request (sample_blob\<lparr>type := []\<rparr>) ''AQID'') = ''audio/webm''
   \<and> transcribeAudio (\<lambda>b. Inr ''AQID'') (\<lambda>request. Inr (Some (mimeType request)))
        (sample_blob\<lparr>type := []\<rparr>) = Inr ''audio/webm''"
  using C9_mime_type_sent [of sample_blob "''AQID''" "\<lambda>b. Inr ''AQID''"]
    C9_mime_type_sent [of "sample_blob\<lparr>type := []\<rparr>" "''AQID''" "\<lambda>b. Inr ''AQID''"]
  by (simp add: sample_blob_def)

section \<open>Identifiers and awaited transcriptions\<close>

lemma find_map_id:
  "(\<And>r. id_r (f r) = id_r r) \<Longrightarrow>
   find (\<lambda>r. id_r r = i) (map f rs) = map_option f (find (\<lambda>r. id_r r = i) rs)"
  by (induction rs) auto

lemma find_filter_neq:
  "find (\<lambda>r. id_r r = i) (filter (\<lambda>r. id_r r \<noteq> j) rs) =
     (if i = j then None else find (\<lambda>r. id_r r = i) rs)"
  by (induction rs) auto

lemma find_distinct_member:
  "distinct (map id_r rs) \<Longrightarrow> r \<in> set rs \<Longrightarrow> find (\<lambda>x. id_r x = id_r r) rs = Some r"
  by (induction rs) (auto simp: image_iff)

lemma find_Some_member:
  "find (\<lambda>r. id_r r = i) rs = Some r \<Longrightarrow> r \<in> set rs \<and> id_r r = i"
  by (induction rs) (auto split: if_splits)

lemma map_id_r_update:
  "(\<And>r. id_r (f r) = id_r r) \<Longrightarrow>
   map (id_r \<circ> (\<lambda>r. if P r then f r else r)) rs = map id_r rs"
  by (induction rs) auto

lemma flow_inv_handleTranscribe:
  assumes "flow_inv s" "recording \<in> set (recordings s)"
    "status recording = IDLE \<or> status recording = ERROR"
  shows "flow_inv (handleTranscribe (id_r recording) s)"
proof -
  have f: "find (\<lambda>r. id_r r = id_r recording) (recordings s) = Some recording"
    using assms(1,2) by (simp add: flow_inv_def find_distinct_member)
  have notp: "id_r recording \<notin> set (map fst (pending s))"
    using assms by (auto simp: flow_inv_def)
  show ?thesis
    using assms(1) notp
    by (auto simp: flow_inv_def handleTranscribe_recordings handleTranscribe_pending f
        map_id_r_update)
qed

lemma distinct_fst_remove1:
  "distinct (map fst ps) \<Longrightarrow> (i, b) \<in> set ps \<Longrightarrow>
   distinct (map fst (remove1 (i, b) ps)) \<and> i \<notin> set (map fst (remove1 (i, b) ps))
   \<and> set (map fst (remove1 (i, b) ps)) \<subseteq> set (map fst ps)"
  by (induction ps) (auto simp: image_iff)

lemma flow_inv_settled:
  assumes "flow_inv s" "(i, b) \<in> set (pending s)"
  shows "flow_inv (handleTranscribe_settled i b outcome s)"
proof -
  let ?f = "\<lambda>r. case outcome of
                       Inr t \<Rightarrow> r\<lparr>status := SUCCESS, transcript := Some t\<rparr>
                     | Inl m \<Rightarrow> r\<lparr>status := ERROR, error := Some transcribe_failed_message\<rparr>"
  let ?rs = "map (\<lambda>r. if id_r r = i then ?f r else r) (recordings s)"
  let ?ps = "remove1 (i, b) (pending s)"
  have idf: "\<And>r. id_r (?f r) = id_r r" by (simp split: sum.splits)
  have d: "distinct (map fst (pending s))" using assms(1) by (simp add: flow_inv_def)
  note r = distinct_fst_remove1 [OF d assms(2)]
  have 1: "distinct (map id_r ?rs)"
    using assms(1) by (simp add: flow_inv_def map_id_r_update [of ?f, OF idf])
  have 3: "\<forall>r \<in> set ?rs. id_r r \<in> set (map fst ?ps) \<longrightarrow> status r = LOADING"
  proof
    fix r' assume "r' \<in> set ?rs"
    then obtain r where r0: "r \<in> set (recordings s)"
      and r': "r' = (if id_r r = i then ?f r else r)" by auto
    show "id_r r' \<in> set (map fst ?ps) \<longrightarrow> status r' = LOADING"
    proof
      assume p: "id_r r' \<in> set (map fst ?ps)"
      have "id_r r' = id_r r" using r' by (simp split: sum.splits)
      with p r have ne: "id_r r \<noteq> i" and "id_r r \<in> set (map fst (pending s))" by auto
      with r0 assms(1) have "status r = LOADING" by (simp add: flow_inv_def)
      with ne r' show "status r' = LOADING" by simp
    qed
  qed
  show ?thesis
    unfolding flow_inv_def handleTranscribe_settled_recordings handleTranscribe_settled_pending
    using 1 r 3 by blast
qed

lemma flow_inv_handleDelete: "flow_inv s \<Longrightarrow> flow_inv (handleDelete i s)"
  by (auto simp: flow_inv_def handleDelete_def distinct_map_filter)

lemma flow_inv_onstop:
  "flow_inv s \<Longrightarrow> fresh_id uuid s \<Longrightarrow> flow_inv (mediaRecorder_onstop uuid new_url s)"
  by (auto simp: flow_inv_def fresh_id_def mediaRecorder_onstop_def Let_def split: option.splits)

lemma flow_inv_handleFileChange:
  "flow_inv s \<Longrightarrow> fresh_id uuid s \<Longrightarrow>
   flow_inv (handleFileChange file tmp_url meta uuid new_url s)"
  by (auto simp: flow_inv_def fresh_id_def handleFileChange_def Let_def
      split: option.splits prod.splits)

lemma flow_inv_step: "step s s' \<Longrightarrow> flow_inv s \<Longrightarrow> flow_inv s'"
proof (induction rule: step.induct)
  case (time_passes s d)
  then show ?case by (simp add: flow_inv_def)
next
  case (start_click s granted)
  then show ?case by (simp add: flow_inv_def startRecording_def split: option.splits)
next
  case (interval s)
  then show ?case by (simp add: flow_inv_def timer_tick_def split: option.splits)
next
  case (data_event s mr event_data)
  then show ?case by (simp add: flow_inv_def ondataavailable_def)
next
  case (stop_click s)
  then show ?case by (simp add: flow_inv_def stopRecording_def split: option.splits)
next
  case (stop_event s mr uuid new_url)
  then show ?case by (simp add: flow_inv_onstop)
next
  case (file_chosen uuid s tmp_url new_url f meta)
  then show ?case by (simp add: flow_inv_handleFileChange)
next
  case (transcribe_click recording s)
  then show ?case
    by (auto simp: RecordingItem_handleTranscribe_def intro: flow_inv_handleTranscribe)
next
  case (transcribe_settles i b s reader endpoint)
  then show ?case by (simp add: flow_inv_settled)
next
  case (delete_click recording s)
  then show ?case by (simp add: flow_inv_handleDelete)
qed

lemma flow_inv_reachable: "reachable s \<Longrightarrow> flow_inv s"
proof (induction rule: reachable.induct)
  case reachable_initial
  show ?case by (simp add: flow_inv_def initial_App_def)
next
  case (reachable_step s s')
  then show ?case by (simp add: flow_inv_step)
qed


lemma find_map_update:
  "(\<And>r. id_r (f r) = id_r r) \<Longrightarrow>
   find (\<lambda>r. id_r r = i) (map (\<lambda>r. if id_r r = j then f r else r) rs) =
     (if i = j then map_option f (find (\<lambda>r. id_r r = i) rs) else find (\<lambda>r. id_r r = i) rs)"
  by (induction rs) auto

lemma status_of_handleTranscribe:
  "status_of i (handleTranscribe j s) =
     (if i = j then map_option (\<lambda>r. LOADING) (find (\<lambda>r. id_r r = i) (recordings s))
      else status_of i s)"
  by (simp add: status_of_def handleTranscribe_recordings find_map_update option.map_comp comp_def)

lemma status_of_settled:
  "status_of i (handleTranscribe_settled j b outcome s) =
     (if i = j
      then map_option (\<lambda>r. case outcome of Inl m \<Rightarrow> ERROR | Inr t \<Rightarrow> SUCCESS)
             (find (\<lambda>r. id_r r = i) (recordings s))
      else status_of i s)"
  by (cases outcome)
     (simp_all add: status_of_def handleTranscribe_settled_def find_map_update
        option.map_comp comp_def)

lemma status_of_handleDelete:
  "status_of i (handleDelete j s) = (if i = j then None else status_of i s)"
  by (simp add: status_of_def handleDelete_def find_filter_neq)

lemma status_of_fresh: "fresh_id u s \<Longrightarrow> status_of u s = None"
  by (auto simp: status_of_def fresh_id_def find_None_iff)

lemma status_of_onstop:
  "mediaRecorderRef s = Some mr \<Longrightarrow>
   status_of i (mediaRecorder_onstop uuid new_url s) =
     (if uuid = i then Some IDLE else status_of i s)"
  by (simp add: status_of_def mediaRecorder_onstop_def)

lemma status_of_handleFileChange:
  "status_of i (handleFileChange file' tmp_url meta uuid new_url s) =
     (case file' of None \<Rightarrow> status_of i s
      | Some f \<Rightarrow> if uuid = i then Some IDLE else status_of i s)"
  by (simp add: status_of_def handleFileChange_def split: option.splits prod.splits)

lemma status_of_pending_LOADING:
  assumes "flow_inv s" "(i, b) \<in> set (pending s)" "status_of i s = Some a"
  shows "a = LOADING"
proof -
  from assms(3) obtain r where f: "find (\<lambda>r. id_r r = i) (recordings s) = Some r"
    and a: "a = status r"
    by (auto simp: status_of_def)
  from f have "r \<in> set (recordings s)" "id_r r = i"
    using find_Some_member by blast+
  moreover have "i \<in> set (map fst (pending s))"
    using assms(2) by force
  ultimately show ?thesis
    using assms(1) a by (simp add: flow_inv_def)
qed

lemma status_of_same: "recordings s' = recordings s \<Longrightarrow> status_of i s' = status_of i s"
  by (simp add: status_of_def)

lemma recordings_startRecording: "recordings (startRecording granted s) = recordings s"
  by (simp add: startRecording_def split: option.splits)

lemma recordings_timer_tick: "recordings (timer_tick s) = recordings s"
  by (simp add: timer_tick_def split: option.splits)

lemma recordings_ondataavailable: "recordings (ondataavailable event_data s) = recordings s"
  by (simp add: ondataavailable_def)

lemma recordings_stopRecording: "recordings (stopRecording s) = recordings s"
  by (simp add: stopRecording_def split: option.splits)

lemma step_status:
  assumes "step s s'" "flow_inv s" "status_of i s = Some a" "status_of i s' = Some b"
  shows "a = b \<or> flow_transition a b"
  using assms
proof (induction rule: step.induct)
  case (time_passes s d)
  have "status_of i (s\<lparr>clock := clock s + d\<rparr>) = status_of i s"
    by (rule status_of_same) simp
  with time_passes show ?case by simp
next
  case (start_click s granted)
  have "status_of i (startRecording granted s) = status_of i s"
    by (rule status_of_same) (rule recordings_startRecording)
  with start_click.prems show ?case by simp
next
  case (interval s)
  have "status_of i (timer_tick s) = status_of i s"
    by (rule status_of_same) (rule recordings_timer_tick)
  with interval show ?case by simp
next
  case (data_event s mr event_data)
  have "status_of i (ondataavailable event_data s) = status_of i s"
    by (rule status_of_same) (rule recordings_ondataavailable)
  with data_event.prems show ?case by simp
next
  case (stop_click s)
  have "status_of i (stopRecording s) = status_of i s"
    by (rule status_of_same) (rule recordings_stopRecording)
  with stop_click.prems show ?case by simp
next
  case (stop_event s mr uuid new_url)
  have "uuid \<noteq> i"
    using stop_event.hyps(3) stop_event.prems(2) by (auto simp: status_of_fresh)
  with stop_event.hyps(1) stop_event.prems(2,3) show ?case
    by (simp add: status_of_onstop)
next
  case (file_chosen uuid s tmp_url new_url f meta)
  have "uuid \<noteq> i"
    using file_chosen.hyps(1) file_chosen.prems(2) by (auto simp: status_of_fresh)
  with file_chosen.prems(2,3) show ?case
    by (simp add: status_of_handleFileChange split: option.splits)
next
  case (transcribe_click recording s)
  show ?case
  proof (cases "(status recording = IDLE \<or> status recording = ERROR) \<and> i = id_r recording")
    case True
    have f: "find (\<lambda>r. id_r r = id_r recording) (recordings s) = Some recording"
      using transcribe_click.hyps transcribe_click.prems(1)
      by (simp add: flow_inv_def find_distinct_member)
    have "a = status recording"
      using True f transcribe_click.prems(2) by (simp add: status_of_def)
    moreover have "b = LOADING"
      using True f transcribe_click.prems(3)
      by (simp add: RecordingItem_handleTranscribe_def status_of_handleTranscribe)
    ultimately show ?thesis
      using True by (auto simp: flow_transition_def)
  next
    case False
    with transcribe_click.prems show ?thesis
      by (auto simp: RecordingItem_handleTranscribe_def status_of_handleTranscribe
          split: if_splits)
  qed
next
  case (transcribe_settles j b' s reader endpoint)
  show ?case
  proof (cases "i = j")
    case True
    with transcribe_settles have "a = LOADING"
      using status_of_pending_LOADING by blast
    with True transcribe_settles.prems show ?thesis
      by (auto simp: status_of_settled flow_transition_def split: sum.splits)
  next
    case False
    with transcribe_settles.prems show ?thesis
      by (simp add: status_of_settled)
  qed
next
  case (delete_click recording s)
  then show ?case
    by (simp add: status_of_handleDelete split: if_splits)
qed

section \<open>The sample runs are runs of the event loop\<close>

lemma sample_uploaded_eq:
  "sample_uploaded =
     \<lparr>isRecording = False,
      recordings = [\<lparr>id_r = ''id-1'', blob = sample_blob, url = ''blob:1'', timestamp = 1000,
                     duration = 3, transcript = None, status = IDLE, error = None,
                     name = Some ''memo.mp3''\<rparr>],
      recordingTime = 0, mediaStream = None, permissionError = None,
      mediaRecorderRef = None, chunksRef = [], timerRef = None, clock = 1000,
      objectURLs = {''blob:1''}, pending = []\<rparr>"
  by (simp add: sample_uploaded_def handleFileChange_def getAudioDuration_def initial_App_def
      sample_file_def)

lemma sample_loading_eq:
  "sample_loading =
     \<lparr>isRecording = False,
      recordings = [\<lparr>id_r = ''id-1'', blob = sample_blob, url = ''blob:1'', timestamp = 1000,
                     duration = 3, transcript = None, status = LOADING, error = None,
                     name = Some ''memo.mp3''\<rparr>],
      recordingTime = 0, mediaStream = None, permissionError = None,
      mediaRecorderRef = None, chunksRef = [], timerRef = None, clock = 1000,
      objectURLs = {''blob:1''}, pending = [(''id-1'', sample_blob)]\<rparr>"
  by (simp add: sample_loading_def sample_uploaded_eq RecordingItem_handleTranscribe_def
      handleTranscribe_def)

lemma reachable_sample_uploaded: "reachable sample_uploaded"
proof -
  have "step initial_App (initial_App\<lparr>clock := clock initial_App + 1000\<rparr>)"
    by (rule step.time_passes)
  then have r1: "reachable (initial_App\<lparr>clock := clock initial_App + 1000\<rparr>)"
    using reachable_initial reachable_step by blast
  have "step (initial_App\<lparr>clock := clock initial_App + 1000\<rparr>) sample_uploaded"
    unfolding sample_uploaded_def
    by (rule step.file_chosen) (simp_all add: fresh_id_def initial_App_def)
  with r1 show ?thesis
    using reachable_step by blast
qed

lemma step_sample_loading: "step sample_uploaded sample_loading"
  unfolding sample_loading_def
  by (rule step.transcribe_click) (simp add: sample_uploaded_eq)

lemma reachable_sample_loading: "reachable sample_loading"
  using reachable_sample_uploaded step_sample_loading reachable_step by blast

lemma capture_stopped_eq:
  "capture_stopped =
     \<lparr>isRecording = False, recordings = [], recordingTime = 5, mediaStream = Some 1,
      permissionError = None,
      mediaRecorderRef =
        Some \<lparr>state = Rec_stopping, onstop_recordingTime = 0, onstop_stream = 1\<rparr>,
      chunksRef = [], timerRef = None, clock = 5000, objectURLs = {}, pending = []\<rparr>"
  by (simp add: capture_stopped_def capture_ticked_def capture_started_def initial_App_def
      startRecording_def timer_tick_def stopRecording_def)

lemma reachable_capture_stopped: "reachable capture_stopped"
proof -
  have 1: "reachable capture_started"
    unfolding capture_started_def
    by (rule reachable_step [OF reachable_initial], rule step.start_click)
       (simp_all add: initial_App_def)
  have 2: "reachable (capture_started\<lparr>clock := clock capture_started + 5000\<rparr>)"
    by (rule reachable_step [OF 1]) (rule step.time_passes)
  have 3: "reachable capture_ticked"
    unfolding capture_ticked_def by (rule reachable_step [OF 2]) (rule step.interval)
  have "isRecording capture_ticked"
    by (simp add: capture_ticked_def capture_started_def initial_App_def startRecording_def
        timer_tick_def)
  then show ?thesis
    unfolding capture_stopped_def by (intro reachable_step [OF 3] step.stop_click)
qed

lemma reachable_capture_finished: "reachable capture_finished"
proof -
  have "step capture_stopped (mediaRecorder_onstop ''id-1'' ''blob:1'' capture_stopped)"
    by (rule step.stop_event
          [of _ "\<lparr>state = Rec_stopping, onstop_recordingTime = 0, onstop_stream = 1\<rparr>"])
       (simp_all add: capture_stopped_eq fresh_id_def)
  with reachable_capture_stopped show ?thesis
    unfolding capture_finished_def by (rule reachable_step)
qed

section \<open>Status transitions\<close>

lemma RecordingItem_accepts:
  assumes "recording \<in> set (recordings s)" "status recording = IDLE \<or> status recording = ERROR"
  shows "status_of (id_r recording) (RecordingItem_handleTranscribe recording s) = Some LOADING
     \<and> (\<exists>b. (id_r recording, b) \<in> set (pending (RecordingItem_handleTranscribe recording s)))"
proof -
  obtain r where f: "find (\<lambda>r. id_r r = id_r recording) (recordings s) = Some r"
    using assms(1) by (cases "find (\<lambda>r. id_r r = id_r recording) (recordings s)")
      (auto simp: find_None_iff)
  show ?thesis
    using assms(2) f
    by (auto simp: RecordingItem_handleTranscribe_def status_of_handleTranscribe
        handleTranscribe_pending)
qed

text \<open>
  C1. In every state the event loop can reach: a transcription request from a list
  item whose status is neither \<open>IDLE\<close> nor \<open>ERROR\<close> changes nothing; a request from an
  item of the list that is \<open>IDLE\<close> or \<open>ERROR\<close> moves it to \<open>LOADING\<close> and starts a
  transcription call; a recording whose call is awaited is \<open>LOADING\<close>, and the
  settling of the call moves it to \<open>ERROR\<close> when the call threw and to \<open>SUCCESS\<close>
  otherwise; and across any turn of the event loop the status of a recording either
  stays or makes one of the transitions \<open>IDLE\<close> or \<open>ERROR\<close> to \<open>LOADING\<close>, \<open>LOADING\<close> to
  \<open>SUCCESS\<close> or \<open>ERROR\<close>.
\<close>

theorem C1_status_transitions:
  assumes "reachable s"
  shows "(\<forall>recording :: Recording. status recording \<noteq> IDLE \<and> status recording \<noteq> ERROR \<longrightarrow>
            RecordingItem_handleTranscribe recording s = s)
     \<and> (\<forall>recording \<in> set (recordings s).
            status recording = IDLE \<or> status recording = ERROR \<longrightarrow>
            status_of (id_r recording) (RecordingItem_handleTranscribe recording s) = Some LOADING
            \<and> (\<exists>b. (id_r recording, b) \<in>
                  set (pending (RecordingItem_handleTranscribe recording s))))
     \<and> (\<forall>i b outcome a. (i, b) \<in> set (pending s) \<longrightarrow> status_of i s = Some a \<longrightarrow>
            a = LOADING
            \<and> status_of i (handleTranscribe_settled i b outcome s) =
                Some (case outcome of Inl m \<Rightarrow> ERROR | Inr t \<Rightarrow> SUCCESS))
     \<and> (\<forall>s' i a b. step s s' \<longrightarrow> status_of i s = Some a \<longrightarrow> status_of i s' = Some b \<longrightarrow>
            a = b \<or> flow_transition a b)"
proof (intro conjI allI ballI impI)
  fix recording :: Recording
  assume "status recording \<noteq> IDLE \<and> status recording \<noteq> ERROR"
  then show "RecordingItem_handleTranscribe recording s = s"
    by (simp add: RecordingItem_handleTranscribe_def)
next
  fix recording
  assume "recording \<in> set (recordings s)" "status recording = IDLE \<or> status recording = ERROR"
  then show "status_of (id_r recording) (RecordingItem_handleTranscribe recording s) = Some LOADING"
    and "\<exists>b. (id_r recording, b) \<in> set (pending (RecordingItem_handleTranscribe recording s))"
    using RecordingItem_accepts by blast+
next
  fix i b outcome a
  assume p: "(i, b) \<in> set (pending s)" and a: "status_of i s = Some a"
  show "a = LOADING"
    using flow_inv_reachable [OF assms] p a by (rule status_of_pending_LOADING)
  from a obtain r where "find (\<lambda>r. id_r r = i) (recordings s) = Some r"
    by (auto simp: status_of_def)
  then show "status_of i (handleTranscribe_settled i b outcome s) =
                Some (case outcome of Inl m \<Rightarrow> ERROR | Inr t \<Rightarrow> SUCCESS)"
    by (simp add: status_of_settled)
next
  fix s' i a b
  assume "step s s'" "status_of i s = Some a" "status_of i s' = Some b"
  then show "a = b \<or> flow_transition a b"
    using flow_inv_reachable [OF assms] step_status by blast
qed

text \<open>
  The uploaded sample recording is \<open>IDLE\<close>; the click moves it to \<open>LOADING\<close>; a failing
  call then moves it to \<open>ERROR\<close>; a second click while it is \<open>LOADING\<close> changes
  nothing.
\<close>

theorem C1_status_transitions_witness:
  "reachable sample_uploaded
   \<and> step sample_uploaded sample_loading
   \<and> status_of ''id-1'' sample_uploaded = Some IDLE
   \<and> status_of ''id-1'' sample_loading = Some LOADING
   \<and> flow_transition IDLE LOADING
   \<and> reachable sample_loading
   \<and> (''id-1'', sample_blob) \<in> set (pending sample_loading)
   \<and> status_of ''id-1'' (handleTranscribe_settled ''id-1'' sample_blob (Inl ''timeout'')
        sample_loading) = Some ERROR
   \<and> RecordingItem_handleTranscribe (hd (recordings sample_loading)) sample_loading =
        sample_loading"
  using C1_status_transitions [OF reachable_sample_uploaded]
    C1_status_transitions [OF reachable_sample_loading]
    reachable_sample_uploaded reachable_sample_loading step_sample_loading
  by (simp add: sample_uploaded_eq sample_loading_eq status_of_def flow_transition_def
      handleTranscribe_settled_def RecordingItem_handleTranscribe_def)

section \<open>The order of the list\<close>

lemma newest_first_map_timestamp:
  "newest_first rs = sorted_wrt (\<lambda>a b. b \<le> a) (map timestamp rs)"
  by (simp add: newest_first_def sorted_wrt_map)

lemma same_order_newest_first: "same_order rs' rs \<Longrightarrow> newest_first rs' = newest_first rs"
  by (simp add: same_order_def newest_first_map_timestamp)

lemma same_order_refl: "same_order rs rs"
  by (simp add: same_order_def)

lemma same_order_update:
  "(\<And>r. id_r (f r) = id_r r \<and> timestamp (f r) = timestamp r) \<Longrightarrow>
   same_order (map (\<lambda>r. if P r then f r else r) rs) rs"
  by (induction rs) (auto simp: same_order_def)

lemma same_order_handleTranscribe: "same_order (recordings (handleTranscribe i s)) (recordings s)"
  unfolding handleTranscribe_recordings by (rule same_order_update) simp

lemma same_order_settled:
  "same_order (recordings (handleTranscribe_settled i b outcome s)) (recordings s)"
  unfolding handleTranscribe_settled_recordings
  by (rule same_order_update) (simp split: sum.splits)

lemma same_order_RecordingItem:
  "same_order (recordings (RecordingItem_handleTranscribe recording s)) (recordings s)"
  by (simp add: RecordingItem_handleTranscribe_def same_order_handleTranscribe same_order_refl)

text \<open>What one turn of the event loop does to the list.\<close>

lemma step_recordings:
  assumes "step s s'"
  shows "clock s \<le> clock s' \<and>
     (same_order (recordings s') (recordings s)
      \<or> (\<exists>r. recordings s' = r # recordings s \<and> timestamp r = clock s)
      \<or> (\<exists>j. recordings s' = filter (\<lambda>r. id_r r \<noteq> j) (recordings s)))"
  using assms
proof (induction rule: step.induct)
  case (time_passes s d)
  show ?case by (simp add: same_order_refl)
next
  case (start_click s granted)
  show ?case by (simp add: startRecording_def same_order_refl split: option.splits)
next
  case (interval s)
  show ?case by (simp add: timer_tick_def same_order_refl split: option.splits)
next
  case (data_event s mr event_data)
  show ?case by (simp add: ondataavailable_def same_order_refl)
next
  case (stop_click s)
  show ?case by (simp add: stopRecording_def same_order_refl split: option.splits)
next
  case (stop_event s mr uuid new_url)
  then show ?case by (simp add: mediaRecorder_onstop_def)
next
  case (file_chosen uuid s tmp_url new_url f meta)
  show ?case
    by (cases f) (simp_all add: handleFileChange_def same_order_refl split: prod.splits)
next
  case (transcribe_click recording s)
  have "clock (RecordingItem_handleTranscribe recording s) = clock s"
    by (simp add: RecordingItem_handleTranscribe_def handleTranscribe_def split: option.splits)
  then show ?case by (simp add: same_order_RecordingItem)
next
  case (transcribe_settles i b s reader endpoint)
  have "clock (handleTranscribe_settled i b (transcribeAudio reader endpoint b) s) = clock s"
    by (simp add: handleTranscribe_settled_def split: sum.splits)
  then show ?case by (simp add: same_order_settled)
next
  case (delete_click recording s)
  have "recordings (handleDelete (id_r recording) s) =
          filter (\<lambda>r. id_r r \<noteq> id_r recording) (recordings s)"
    by (simp add: handleDelete_def)
  moreover have "clock (handleDelete (id_r recording) s) = clock s"
    by (simp add: handleDelete_def)
  ultimately show ?case by auto
qed

lemma time_inv_step:
  assumes "step s s'" "time_inv s"
  shows "time_inv s'"
proof -
  from step_recordings [OF assms(1)] have c: "clock s \<le> clock s'"
    and d: "same_order (recordings s') (recordings s)
      \<or> (\<exists>r. recordings s' = r # recordings s \<and> timestamp r = clock s)
      \<or> (\<exists>j. recordings s' = filter (\<lambda>r. id_r r \<noteq> j) (recordings s))"
    by simp_all
  from d show ?thesis
  proof (elim disjE exE conjE)
    assume so: "same_order (recordings s') (recordings s)"
    then have "timestamp ` set (recordings s') = timestamp ` set (recordings s)"
      by (metis same_order_def set_map)
    moreover have "\<forall>t \<in> timestamp ` set (recordings s). t \<le> clock s"
      using assms(2) by (simp add: time_inv_def)
    ultimately have "\<forall>r \<in> set (recordings s'). timestamp r \<le> clock s"
      by (metis imageI)
    with c so assms(2) show ?thesis
      by (auto simp: time_inv_def same_order_newest_first)
  next
    fix r assume "recordings s' = r # recordings s" "timestamp r = clock s"
    with c assms(2) show ?thesis
      by (auto simp: time_inv_def newest_first_def)
  next
    fix j assume "recordings s' = filter (\<lambda>r. id_r r \<noteq> j) (recordings s)"
    with c assms(2) show ?thesis
      by (auto simp: time_inv_def newest_first_def sorted_wrt_filter)
  qed
qed

lemma time_inv_reachable: "reachable s \<Longrightarrow> time_inv s"
proof (induction rule: reachable.induct)
  case reachable_initial
  show ?case by (simp add: time_inv_def newest_first_def initial_App_def)
next
  case (reachable_step s s')
  then show ?case by (simp add: time_inv_step)
qed

text \<open>
  C6. The recordings list is ordered newest first. Both creation paths, the stop event
  of a capture and the choice of a file, put the new recording, stamped with the
  current time, at the front of the list; every turn of the event loop either keeps
  the ids and creation times in their order, or puts a recording stamped with the
  current time at the front, or removes the recordings of one id; so in every
  reachable state the list is sorted by creation time, descending. The clock read by
  \<open>Date.now()\<close> does not run backwards.
\<close>

theorem C6_newest_first:
  assumes "reachable s"
  shows "sorted_wrt (\<lambda>a b. timestamp b \<le> timestamp a) (recordings s)
     \<and> (\<forall>mr uuid new_url. mediaRecorderRef s = Some mr \<longrightarrow>
           (\<exists>r. recordings (mediaRecorder_onstop uuid new_url s) = r # recordings s
                \<and> timestamp r = clock s))
     \<and> (\<forall>f tmp_url meta uuid new_url.
           (\<exists>r. recordings (handleFileChange (Some f) tmp_url meta uuid new_url s) =
                  r # recordings s \<and> timestamp r = clock s))
     \<and> (\<forall>s'. step s s' \<longrightarrow>
           same_order (recordings s') (recordings s)
           \<or> (\<exists>r. recordings s' = r # recordings s \<and> timestamp r = clock s)
           \<or> (\<exists>j. recordings s' = filter (\<lambda>r. id_r r \<noteq> j) (recordings s)))"
proof (intro conjI allI impI)
  show "sorted_wrt (\<lambda>a b. timestamp b \<le> timestamp a) (recordings s)"
    using time_inv_reachable [OF assms] by (simp add: time_inv_def newest_first_def)
next
  fix mr uuid new_url assume "mediaRecorderRef s = Some mr"
  then show "\<exists>r. recordings (mediaRecorder_onstop uuid new_url s) = r # recordings s
                \<and> timestamp r = clock s"
    by (simp add: mediaRecorder_onstop_def)
next
  fix f tmp_url meta uuid new_url
  show "\<exists>r. recordings (handleFileChange (Some f) tmp_url meta uuid new_url s) =
                  r # recordings s \<and> timestamp r = clock s"
    by (simp add: handleFileChange_def split: prod.splits)
next
  fix s' assume "step s s'"
  then show "same_order (recordings s') (recordings s)
           \<or> (\<exists>r. recordings s' = r # recordings s \<and> timestamp r = clock s)
           \<or> (\<exists>j. recordings s' = filter (\<lambda>r. id_r r \<noteq> j) (recordings s))"
    using step_recordings by blast
qed

text \<open>
  The list after the upload is sorted, and the click on its item keeps ids and
  creation times in place; the stop event of the sample capture and a second upload
  put their recording in front of the list that was there.
\<close>

theorem C6_newest_first_witness:
  "reachable sample_uploaded
   \<and> sorted_wrt (\<lambda>a b. timestamp b \<le> timestamp a) (recordings sample_uploaded)
   \<and> step sample_uploaded sample_loading
   \<and> same_order (recordings sample_loading) (recordings sample_uploaded)
   \<and> reachable capture_stopped
   \<and> mediaRecorderRef capture_stopped =
       Some \<lparr>state = Rec_stopping, onstop_recordingTime = 0, onstop_stream = 1\<rparr>
   \<and> tl (recordings (mediaRecorder_onstop ''id-1'' ''blob:1'' capture_stopped)) =
       recordings capture_stopped
   \<and> timestamp (hd (recordings (mediaRecorder_onstop ''id-1'' ''blob:1'' capture_stopped))) =
       clock capture_stopped
   \<and> tl (recordings (handleFileChange (Some sample_file) ''blob:tmp'' LoadError ''id-2''
         ''blob:2'' sample_uploaded)) = recordings sample_uploaded"
  using C6_newest_first [OF reachable_sample_uploaded] C6_newest_first [OF reachable_capture_stopped]
    reachable_sample_uploaded reachable_capture_stopped step_sample_loading
  by (simp add: sample_uploaded_eq sample_loading_eq same_order_def capture_stopped_eq
      mediaRecorder_onstop_def handleFileChange_def getAudioDuration_def)

section \<open>Deletion and object URLs\<close>

lemma map_url_update:
  "(\<And>r. url (f r) = url r) \<Longrightarrow> map url (map (\<lambda>r. if P r then f r else r) rs) = map url rs"
  by (induction rs) auto

lemma urls_handleTranscribe:
  "url ` set (recordings (handleTranscribe i s)) = url ` set (recordings s)"
proof -
  have "map url (recordings (handleTranscribe i s)) = map url (recordings s)"
    unfolding handleTranscribe_recordings by (rule map_url_update) simp
  then show ?thesis by (metis set_map)
qed

lemma urls_settled:
  "url ` set (recordings (handleTranscribe_settled i b outcome s)) = url ` set (recordings s)"
proof -
  have "map url (recordings (handleTranscribe_settled i b outcome s)) = map url (recordings s)"
    unfolding handleTranscribe_settled_recordings
    by (rule map_url_update) (simp split: sum.splits)
  then show ?thesis by (metis set_map)
qed

lemma url_inv_image: "url_inv s = (url ` set (recordings s) \<subseteq> objectURLs s)"
  by (auto simp: url_inv_def)

lemma url_inv_step:
  assumes "step s s'" "url_inv s"
  shows "url_inv s'"
  using assms
proof (induction rule: step.induct)
  case (time_passes s d)
  then show ?case by (simp add: url_inv_def)
next
  case (start_click s granted)
  then show ?case by (simp add: url_inv_def startRecording_def split: option.splits)
next
  case (interval s)
  then show ?case by (simp add: url_inv_def timer_tick_def split: option.splits)
next
  case (data_event s mr event_data)
  then show ?case by (simp add: url_inv_def ondataavailable_def)
next
  case (stop_click s)
  then show ?case by (simp add: url_inv_def stopRecording_def split: option.splits)
next
  case (stop_event s mr uuid new_url)
  then show ?case by (simp add: url_inv_def mediaRecorder_onstop_def)
next
  case (file_chosen uuid s tmp_url new_url f meta)
  then show ?case
    by (cases f; cases meta)
       (auto simp: url_inv_def handleFileChange_def getAudioDuration_def)
next
  case (transcribe_click recording s)
  have "objectURLs (RecordingItem_handleTranscribe recording s) = objectURLs s"
    by (simp add: RecordingItem_handleTranscribe_def handleTranscribe_def split: option.splits)
  moreover have "url ` set (recordings (RecordingItem_handleTranscribe recording s)) =
      url ` set (recordings s)"
    by (simp add: RecordingItem_handleTranscribe_def urls_handleTranscribe)
  ultimately show ?case
    using transcribe_click.prems by (simp add: url_inv_image)
next
  case (transcribe_settles i b s reader endpoint)
  let ?s' = "handleTranscribe_settled i b (transcribeAudio reader endpoint b) s"
  have "objectURLs ?s' = objectURLs s"
    by (simp add: handleTranscribe_settled_def split: sum.splits)
  moreover have "url ` set (recordings ?s') = url ` set (recordings s)"
    by (rule urls_settled)
  ultimately show ?case
    using transcribe_settles.prems by (simp add: url_inv_image)
next
  case (delete_click recording s)
  then show ?case by (simp add: url_inv_def handleDelete_def)
qed

lemma url_inv_reachable: "reachable s \<Longrightarrow> url_inv s"
proof (induction rule: reachable.induct)
  case reachable_initial
  show ?case by (simp add: url_inv_def initial_App_def)
next
  case (reachable_step s s')
  then show ?case by (simp add: url_inv_step)
qed

text \<open>
  C3, as stated, fails: deleting the uploaded sample recording removes it from the
  list, and its object URL \<open>blob:1\<close> is still live afterwards.
\<close>

theorem C3_delete_releases_counterexample:
  "\<not> (hd (recordings sample_uploaded) \<notin>
        set (recordings (handleDelete (id_r (hd (recordings sample_uploaded))) sample_uploaded))
      \<and> url (hd (recordings sample_uploaded)) \<notin>
        objectURLs (handleDelete (id_r (hd (recordings sample_uploaded))) sample_uploaded))"
  by (simp add: sample_uploaded_eq handleDelete_def)

text \<open>
  C3, amended. For every recording in the list of a reachable state, \<open>handleDelete\<close>
  with its id removes that recording from the list and revokes nothing: the set of
  live object URLs is unchanged, and the object URL created for the recording's audio
  payload stays live.
\<close>

theorem C3_delete_keeps_object_URL:
  assumes "reachable s" "r \<in> set (recordings s)"
  shows "r \<notin> set (recordings (handleDelete (id_r r) s))
     \<and> objectURLs (handleDelete (id_r r) s) = objectURLs s
     \<and> url r \<in> objectURLs (handleDelete (id_r r) s)"
  using url_inv_reachable [OF assms(1)] assms(2)
  by (simp add: url_inv_def handleDelete_def)

text \<open>The uploaded sample recording: deleted from the list, its URL still live.\<close>

theorem C3_delete_keeps_object_URL_witness:
  "reachable sample_uploaded
   \<and> hd (recordings sample_uploaded) \<in> set (recordings sample_uploaded)
   \<and> recordings (handleDelete ''id-1'' sample_uploaded) = []
   \<and> ''blob:1'' \<in> objectURLs (handleDelete ''id-1'' sample_uploaded)"
  using C3_delete_keeps_object_URL [OF reachable_sample_uploaded,
      of "hd (recordings sample_uploaded)"] reachable_sample_uploaded
  by (simp add: sample_uploaded_eq handleDelete_def)

section \<open>The duration of a captured recording\<close>

text \<open>
  C2. The claim is that the recording made when a capture stops stores the seconds
  that the recording timer shows at that moment. In the sample capture, a run of the
  event loop (\<open>reachable_capture_finished\<close>), the timer shows 5 seconds when the stop
  button is clicked, and the recording that the stop event creates has duration 0:
  \<open>onstop\<close> reads the \<open>recordingTime\<close> of the render in which \<open>startRecording\<close> was
  created, not the timer's current value.
\<close>

theorem C2_duration_is_recordingTime_at_start:
  "recordingTime capture_stopped = 5
   \<and> clock capture_stopped - clock capture_started = 5000
   \<and> recordings capture_finished =
       [\<lparr>id_r = ''id-1'', blob = \<lparr>bytes = [], type = ''audio/webm''\<rparr>, url = ''blob:1'',
         timestamp = 5000, duration = 0, transcript = None, status = IDLE, error = None,
         name = None\<rparr>]"
  by (simp add: capture_finished_def capture_stopped_eq mediaRecorder_onstop_def
      capture_started_def initial_App_def startRecording_def)

section \<open>Rounding to a double\<close>

lemma binade_bounds:
  assumes "0 < x"
  shows "2 powi binade x \<le> x \<and> x < 2 powi (binade x + 1)"
proof (cases "1 \<le> x")
  case True
  let ?a = "\<lfloor>x\<rfloor>"
  from True have a: "0 < ?a" by simp
  from bitlen_bounds [OF a] have lo: "2 ^ nat (bitlen ?a - 1) \<le> ?a"
    and hi: "?a < 2 ^ nat (bitlen ?a)" by simp_all
  have b1: "1 \<le> bitlen ?a"
    using a by (simp add: bitlen_alt_def)
  have "(2::rat) powi (bitlen ?a - 1) = 2 ^ nat (bitlen ?a - 1)"
    using b1 by (simp add: power_int_def)
  also have "\<dots> = of_int (2 ^ nat (bitlen ?a - 1))" by simp
  also have "\<dots> \<le> of_int ?a" using lo by (simp only: of_int_le_iff)
  also have "\<dots> \<le> x" by simp
  finally have 1: "2 powi (bitlen ?a - 1) \<le> x" .
  have "?a + 1 \<le> 2 ^ nat (bitlen ?a)" using hi by simp
  then have "(of_int (?a + 1) :: rat) \<le> of_int (2 ^ nat (bitlen ?a))"
    by (simp only: of_int_le_iff)
  moreover have "x < of_int (?a + 1)" by simp linarith
  ultimately have "x < of_int (2 ^ nat (bitlen ?a))" by linarith
  also have "\<dots> = 2 powi (bitlen ?a)"
    using b1 by (simp add: power_int_def)
  finally have 2: "x < 2 powi (bitlen ?a - 1 + 1)" by simp
  from 1 2 True show ?thesis by (simp add: binade_def)
next
  case False
  let ?c = "\<lceil>1 / x\<rceil>"
  let ?k = "bitlen (?c - 1)"
  from False assms have x1: "1 < 1 / x" by (simp add: field_simps)
  then have c2: "2 \<le> ?c" by (simp add: le_ceiling_iff)
  then have c1: "0 < ?c - 1" by simp
  from bitlen_bounds [OF c1] have lo: "2 ^ nat (?k - 1) \<le> ?c - 1"
    and hi: "?c - 1 < 2 ^ nat ?k" by simp_all
  have k1: "1 \<le> ?k"
    using c1 by (simp add: bitlen_alt_def)
  have "1 / x \<le> of_int ?c" by (rule le_of_int_ceiling)
  also have "?c \<le> 2 ^ nat ?k" using hi by simp
  then have "(of_int ?c :: rat) \<le> of_int (2 ^ nat ?k)" by (simp only: of_int_le_iff)
  finally have "1 / x \<le> 2 ^ nat ?k" by simp
  then have "1 \<le> 2 ^ nat ?k * x" using assms by (simp add: field_simps)
  then have 1: "2 powi (- ?k) \<le> x"
    using k1 by (simp add: power_int_def field_simps)
  have "(of_int (2 ^ nat (?k - 1)) :: rat) \<le> of_int (?c - 1)"
    using lo by (simp only: of_int_le_iff)
  moreover have "of_int (?c - 1) < 1 / x"
    using ceiling_correct [of "1 / x"] by simp
  ultimately have "2 ^ nat (?k - 1) < 1 / x" by simp
  then have "x * 2 ^ nat (?k - 1) < 1" using assms by (simp add: field_simps)
  then have 2: "x < 2 powi (- ?k + 1)"
  proof (cases "?k = 1")
    case True
    with \<open>x * 2 ^ nat (?k - 1) < 1\<close> show ?thesis by simp
  next
    case False
    with k1 have "- ?k + 1 < 0" by simp
    moreover have "nat (- (- ?k + 1)) = nat (?k - 1)" by simp
    ultimately show ?thesis
      using \<open>x * 2 ^ nat (?k - 1) < 1\<close> by (simp add: power_int_def field_simps)
  qed
  from 1 2 False show ?thesis by (simp add: binade_def)
qed

lemma pow2_less_cancel: "(2::rat) powi a < 2 powi b \<Longrightarrow> a < b"
proof (rule ccontr)
  assume lt: "(2::rat) powi a < 2 powi b" and "\<not> a < b"
  then have "b \<le> a" by simp
  then have "(2::rat) powi b \<le> 2 powi a" by (rule power_int_increasing) simp
  with lt show False by simp
qed

lemma binade_eqI:
  assumes "2 powi e \<le> x" "x < 2 powi (e + 1)"
  shows "binade x = e"
proof -
  have x: "0 < x" using assms(1) zero_less_power_int [of "2::rat" e] by linarith
  from binade_bounds [OF x] have b: "2 powi binade x \<le> x" "x < 2 powi (binade x + 1)"
    by simp_all
  have "(2::rat) powi e < 2 powi (binade x + 1)" using assms(1) b(2) by linarith
  then have 1: "e < binade x + 1" by (rule pow2_less_cancel)
  have "(2::rat) powi binade x < 2 powi (e + 1)" using assms(2) b(1) by linarith
  then have 2: "binade x < e + 1" by (rule pow2_less_cancel)
  from 1 2 show ?thesis by simp
qed

lemma round_half_even_ge: "of_int k \<le> y \<Longrightarrow> k \<le> round_half_even y"
proof -
  assume "of_int k \<le> y"
  then have "k \<le> \<lfloor>y\<rfloor>" by (simp add: le_floor_iff)
  then show ?thesis by (simp add: round_half_even_def Let_def)
qed

lemma round_half_even_less: "y + 1 / 2 < of_int k \<Longrightarrow> round_half_even y < k"
proof -
  assume a: "y + 1 / 2 < of_int k"
  have f: "of_int \<lfloor>y\<rfloor> \<le> y" by simp
  show ?thesis
  proof (cases "y - of_int \<lfloor>y\<rfloor> < 1 / 2")
    case True
    have "(of_int \<lfloor>y\<rfloor> :: rat) < of_int k" using a f by linarith
    then have "\<lfloor>y\<rfloor> < k" by (simp only: of_int_less_iff)
    with True show ?thesis by (simp add: round_half_even_def Let_def)
  next
    case False
    then have "of_int \<lfloor>y\<rfloor> + 1 \<le> y + 1 / 2" by linarith
    with a have "(of_int (\<lfloor>y\<rfloor> + 1) :: rat) < of_int k" by simp
    then have "\<lfloor>y\<rfloor> + 1 < k" by (simp only: of_int_less_iff)
    then show ?thesis by (simp add: round_half_even_def Let_def)
  qed
qed

lemma round_half_even_of_int: "round_half_even (of_int k) = k"
  by (simp add: round_half_even_def)

lemma pow2_inverse:
  assumes "j \<le> 0"
  shows "(2::rat) powi j * of_int (2 ^ nat (- j)) = 1"
proof -
  have "(2::rat) powi j = inverse (2 ^ nat (- j))"
    using assms by (cases "j = 0") (simp_all add: power_int_def power_one_over inverse_eq_divide)
  then show ?thesis by simp
qed

lemma round_double_between:
  assumes x: "x \<noteq> 0" and u: "ulp x = 2 powi j" and j: "j \<le> 0"
    and lo: "of_int a \<le> x" and hi: "x + ulp x / 2 < of_int b"
  shows "of_int a \<le> round_double x \<and> round_double x < of_int b"
proof -
  let ?P = "2 ^ nat (- j) :: int"
  have up: "ulp x * of_int ?P = 1" using pow2_inverse [OF j] u by simp
  have u0: "0 < ulp x" by (simp add: u)
  have P0: "(0::rat) < of_int ?P" by simp
  have div: "\<And>z. z / ulp x = z * of_int ?P"
    using up u0 by (simp add: field_simps)
  have "of_int (a * ?P) \<le> x * of_int ?P"
    using lo P0 by (simp only: of_int_mult mult_le_cancel_right_pos)
  then have 1: "a * ?P \<le> round_half_even (x / ulp x)"
    unfolding div by (rule round_half_even_ge)
  have "(x + ulp x / 2) * of_int ?P < of_int b * of_int ?P"
    using hi P0 by (simp only: mult_less_cancel_right_pos)
  then have "x * of_int ?P + 1 / 2 < of_int (b * ?P)"
    using up by (simp add: algebra_simps)
  then have 2: "round_half_even (x / ulp x) < b * ?P"
    unfolding div by (rule round_half_even_less)
  have r: "round_double x = of_int (round_half_even (x / ulp x)) * ulp x"
    using x by (simp add: round_double_def)
  have "of_int a = of_int (a * ?P) * ulp x"
    using up by (simp add: mult.assoc mult.commute)
  also have "\<dots> \<le> of_int (round_half_even (x / ulp x)) * ulp x"
    using 1 u0 by (simp only: mult_le_cancel_right_pos of_int_le_iff)
  finally have A: "of_int a \<le> round_double x" by (simp only: r)
  have "of_int (round_half_even (x / ulp x)) * ulp x < of_int (b * ?P) * ulp x"
    using 2 u0 by (simp only: mult_less_cancel_right_pos of_int_less_iff)
  also have "\<dots> = of_int b"
    using up by (simp add: mult.assoc mult.commute)
  finally have B: "round_double x < of_int b" by (simp only: r)
  from A B show ?thesis ..
qed

lemma pow2_split:
  assumes "i \<le> j"
  shows "(2::rat) powi j = 2 powi i * of_int (2 ^ nat (j - i))"
proof -
  have "(2::rat) powi (i + (j - i)) = 2 powi i * 2 powi (j - i)"
    by (rule power_int_add) simp
  moreover have "(2::rat) powi (j - i) = of_int (2 ^ nat (j - i))"
    using assms by (simp add: power_int_def)
  ultimately show ?thesis by simp
qed

lemma double_next:
  assumes s0: "0 < s" and d: "is_double s" and us: "ulp s = 2 powi j"
    and i: "i \<le> j" "i \<le> 2" and lt: "s < of_int (4 * m)"
  shows "s + 2 powi i \<le> of_int (4 * m)"
proof -
  let ?g = "2 powi i :: rat"
  let ?A = "2 ^ nat (j - i) :: int"
  let ?B = "2 ^ nat (2 - i) :: int"
  let ?M = "round_half_even (s / ulp s)"
  have g0: "0 < ?g" by simp
  have "(2::rat) powi 2 = ?g * of_int ?B" using i(2) by (rule pow2_split)
  then have four: "(4::rat) = ?g * of_int ?B" by simp
  from d s0 have "s = of_int ?M * ulp s"
    by (simp add: is_double_def round_double_def)
  then have "s = of_int ?M * (?g * of_int ?A)"
    using pow2_split [OF i(1)] by (simp only: us)
  then have s: "s = of_int (?M * ?A) * ?g"
    by (simp only: of_int_mult mult.assoc mult.commute [of ?g])
  have "of_int (4 * m) = 4 * (of_int m :: rat)" by simp
  also have "\<dots> = (?g * of_int ?B) * of_int m" by (simp only: four [symmetric])
  finally have m: "of_int (4 * m) = of_int (m * ?B) * ?g"
    by (simp only: of_int_mult mult.assoc mult.commute mult.left_commute)
  from lt have "of_int (?M * ?A) * ?g < of_int (m * ?B) * ?g"
    by (simp only: s [symmetric] m [symmetric])
  then have "(of_int (?M * ?A) :: rat) < of_int (m * ?B)"
    using g0 by (simp only: mult_less_cancel_right_pos)
  then have "?M * ?A < m * ?B" by (simp only: of_int_less_iff)
  then have "?M * ?A + 1 \<le> m * ?B" by simp
  then have "(of_int (?M * ?A + 1) :: rat) \<le> of_int (m * ?B)" by (simp only: of_int_le_iff)
  then have le: "of_int (?M * ?A + 1) * ?g \<le> of_int (m * ?B) * ?g"
    using g0 by (simp only: mult_le_cancel_right_pos)
  have "of_int (?M * ?A + 1) * ?g = of_int (?M * ?A) * ?g + ?g"
    by (simp only: of_int_add of_int_1 distrib_right mult_1)
  with le have "of_int (?M * ?A) * ?g + ?g \<le> of_int (m * ?B) * ?g" by (simp only:)
  then show ?thesis by (simp only: s [symmetric] m [symmetric])
qed

lemma pow2_numerals: "(2::rat) powi 50 = 2 ^ 50" "(2::rat) powi 56 = 2 ^ 56"
  by (simp_all add: power_int_def)

lemma pow2_shift5: "(2::rat) powi (e - 5) = 2 powi e / 32"
proof -
  have "(2::rat) powi (e + (- 5)) = 2 powi e * 2 powi (- 5)"
    by (rule power_int_add) simp
  moreover have "(2::rat) powi (- 5) = 1 / 32" by (simp add: power_int_def power_one_over)
  ultimately show ?thesis by simp
qed

lemma add_less_le_trans: "(x::rat) + u \<le> c \<Longrightarrow> v < u \<Longrightarrow> x + v < c"
  by simp

lemma div60_less: "(x::rat) / 60 < c \<Longrightarrow> x < 60 * c"
  by simp

lemma div60_half_ulp: "(x::rat) + 30 * u < 60 * c \<Longrightarrow> x / 60 + u / 2 < c"
  by simp

lemma floor_quotient_rounded:
  assumes s0: "0 < s" and sB: "s < 60 * 2 ^ 50" and d: "is_double s"
  shows "\<lfloor>round_double (s / 60)\<rfloor> = \<lfloor>s / 60\<rfloor>"
proof -
  let ?q = "s / 60"
  let ?es = "binade s"
  let ?eq = "binade ?q"
  let ?n = "\<lfloor>?q\<rfloor> + 1"
  have q0: "0 < ?q" using s0 by simp
  have q50: "?q < 2 ^ 50" using sB by simp
  from binade_bounds [OF s0] have bs: "2 powi ?es \<le> s" "s < 2 powi (?es + 1)" by simp_all
  from binade_bounds [OF q0] have bq: "2 powi ?eq \<le> ?q" "?q < 2 powi (?eq + 1)" by simp_all
  have "(2::rat) powi ?eq < 2 powi 50" using bq(1) q50 by (simp only: pow2_numerals)
  then have "?eq < 50" by (rule pow2_less_cancel)
  then have eq49: "?eq \<le> 49" by simp
  have "?q < s / 32" using s0 by (simp add: field_simps)
  also have "\<dots> < 2 powi (?es + 1) / 32" using bs(2) by simp
  also have "\<dots> = 2 powi (?es + 1 - 5)" by (simp only: pow2_shift5)
  finally have "(2::rat) powi ?eq < 2 powi (?es - 4)" using bq(1) by simp
  then have "?eq < ?es - 4" by (rule pow2_less_cancel)
  then have eq: "?eq \<le> ?es - 5" by simp
  define js where "js = max ?es (- 1022) - 52"
  define jq where "jq = max ?eq (- 1022) - 52"
  define i where "i = min js 2"
  have us: "ulp s = 2 powi js" using s0 by (simp add: ulp_def js_def)
  have uq: "ulp ?q = 2 powi jq" using q0 by (simp add: ulp_def jq_def)
  have jq3: "jq \<le> - 3" using eq49 by (simp add: jq_def)
  then have jq0: "jq \<le> 0" by simp
  have i: "i \<le> js" "i \<le> 2" by (simp_all add: i_def)
  have lo: "of_int \<lfloor>?q\<rfloor> \<le> ?q" by (rule of_int_floor_le)
  have qn: "?q < of_int \<lfloor>?q\<rfloor> + 1" by linarith
  then have "s < 60 * (of_int \<lfloor>?q\<rfloor> + 1)" by (rule div60_less)
  then have "s < of_int (4 * (15 * ?n))"
    by (simp only: of_int_mult of_int_add of_int_numeral of_int_1)
  from double_next [OF s0 d us i this] have "s + 2 powi i \<le> of_int (4 * (15 * ?n))" .
  then have nx: "s + 2 powi i \<le> 60 * (of_int \<lfloor>?q\<rfloor> + 1)"
    by (simp only: of_int_mult of_int_add of_int_numeral of_int_1)
  have hi: "?q + ulp ?q / 2 < of_int \<lfloor>?q\<rfloor> + 1"
  proof (cases "- 1022 \<le> ?eq")
    case True
    with eq have "jq \<le> js - 5" by (simp add: jq_def js_def)
    with jq3 have "jq \<le> i - 5" by (simp add: i_def)
    then have "(2::rat) powi jq \<le> 2 powi (i - 5)" by (rule power_int_increasing) simp
    then have "ulp ?q \<le> 2 powi i / 32" by (simp only: uq pow2_shift5)
    moreover have "0 < ulp ?q" by (simp add: uq)
    ultimately have "30 * ulp ?q < 2 powi i" by simp
    with nx have "s + 30 * ulp ?q < 60 * (of_int \<lfloor>?q\<rfloor> + 1)" by (rule add_less_le_trans)
    then show ?thesis by (rule div60_half_ulp)
  next
    case False
    then have "?eq + 1 \<le> - 1" by simp
    then have "(2::rat) powi (?eq + 1) \<le> 2 powi (- 1)" by (rule power_int_increasing) simp
    with bq(2) have qh: "?q < 1 / 2" by (simp add: power_int_def)
    have "(2::rat) powi jq \<le> 2 powi 0" using jq0 by (rule power_int_increasing) simp
    then have "ulp ?q \<le> 1" by (simp only: uq power_int_0_right)
    moreover have "0 \<le> (of_int \<lfloor>?q\<rfloor> :: rat)" using q0 by simp
    ultimately show ?thesis using qh by linarith
  qed
  have "?q \<noteq> 0" using q0 by simp
  moreover from hi have "?q + ulp ?q / 2 < of_int ?n"
    by (simp only: of_int_add of_int_1)
  ultimately have "of_int \<lfloor>?q\<rfloor> \<le> round_double ?q \<and> round_double ?q < of_int ?n"
    using uq jq0 lo by (intro round_double_between)
  then have "of_int \<lfloor>?q\<rfloor> \<le> round_double ?q"
    "round_double ?q < of_int \<lfloor>?q\<rfloor> + 1"
    by (simp_all only: of_int_add of_int_1)
  then show ?thesis by (rule floor_unique)
qed

section \<open>Decimal numerals\<close>

lemma digit_char_table:
  "digit_char 0 = CHR ''0''" "digit_char 1 = CHR ''1''" "digit_char 2 = CHR ''2''"
  "digit_char 3 = CHR ''3''" "digit_char 4 = CHR ''4''" "digit_char 5 = CHR ''5''"
  "digit_char 6 = CHR ''6''" "digit_char 7 = CHR ''7''" "digit_char 8 = CHR ''8''"
  "digit_char 9 = CHR ''9''" "digit_char (Suc 0) = CHR ''1''"
  unfolding digit_char_def by code_simp+

lemma less_10_cases:
  "d < 10 \<Longrightarrow> d = 0 \<or> d = 1 \<or> d = 2 \<or> d = 3 \<or> d = 4 \<or> d = 5 \<or> d = 6 \<or> d = 7 \<or> d = 8 \<or> d = (9::nat)"
  by arith

lemma digit_char_digit: "d < 10 \<Longrightarrow> digit_char d \<in> set ''0123456789''"
  using less_10_cases [of d] by (auto simp: digit_char_table)

lemma digit_value_digit_char: "d < 10 \<Longrightarrow> digit_value (digit_char d) = d"
  by (simp add: digit_value_def digit_char_def)

lemma decimal_value_snoc:
  "decimal_value (ds @ [c]) = 10 * decimal_value ds + digit_value c"
  by (simp add: decimal_value_def)

lemma decimal_value_decimal: "decimal_value (decimal n) = n"
proof (induction n rule: decimal.induct)
  case (1 n)
  show ?case
  proof (cases "n < 10")
    case True
    then show ?thesis
      by (simp add: decimal.simps [of n] decimal_value_def digit_value_digit_char)
  next
    case False
    with 1 have "decimal_value (decimal (n div 10)) = n div 10" by simp
    with False show ?thesis
      by (simp add: decimal.simps [of n] decimal_value_snoc digit_value_digit_char)
  qed
qed

lemma decimal_not_Nil: "decimal n \<noteq> []"
  by (simp add: decimal.simps [of n])

lemma decimal_digits: "\<forall>c \<in> set (decimal n). c \<in> set ''0123456789''"
proof (induction n rule: decimal.induct)
  case (1 n)
  show ?case
  proof (cases "n < 10")
    case True
    then show ?thesis
      using digit_char_digit [of n] by (simp add: decimal.simps [of n])
  next
    case False
    with 1 have "\<forall>c \<in> set (decimal (n div 10)). c \<in> set ''0123456789''" by simp
    moreover have "digit_char (n mod 10) \<in> set ''0123456789''"
      by (rule digit_char_digit) simp
    ultimately show ?thesis
      using False by (simp add: decimal.simps [of n])
  qed
qed

lemma decimal_hd_zero: "hd (decimal n) = CHR ''0'' \<Longrightarrow> n = 0"
proof (induction n rule: decimal.induct)
  case (1 n)
  show ?case
  proof (cases "n < 10")
    case True
    with "1.prems" have "digit_char n = CHR ''0''"
      by (simp add: decimal.simps [of n])
    then have "digit_value (digit_char n) = digit_value CHR ''0''" by simp
    moreover have "digit_value CHR ''0'' = 0" by (simp add: digit_value_def)
    moreover have "digit_value (digit_char n) = n" using True by (rule digit_value_digit_char)
    ultimately show ?thesis by simp
  next
    case False
    have "hd (decimal n) = hd (decimal (n div 10))"
      using False decimal_not_Nil [of "n div 10"] by (simp add: decimal.simps [of n])
    with "1.prems" have "hd (decimal (n div 10)) = CHR ''0''" by simp
    with False "1.IH" have "n div 10 = 0" by simp
    with False show ?thesis by simp
  qed
qed

lemma decimal_numeral_decimal: "decimal_numeral (decimal n)"
proof -
  have "hd (decimal n) = CHR ''0'' \<longrightarrow> decimal n = ''0''"
  proof
    assume "hd (decimal n) = CHR ''0''"
    then have "n = 0" by (rule decimal_hd_zero)
    then show "decimal n = ''0''" by (simp add: decimal.simps [of 0] digit_char_table)
  qed
  then show ?thesis
    using decimal_not_Nil [of n] decimal_digits [of n] by (simp only: decimal_numeral_def) simp
qed

section \<open>Formatting a duration\<close>

lemma decimal_two_digits: "k < 100 \<Longrightarrow> padStart 2 CHR ''0'' (decimal k) = two_digits k"
proof (cases "k < 10")
  case True
  then show ?thesis
    by (simp add: decimal.simps [of k] padStart_def two_digits_def digit_char_table)
next
  case False
  assume "k < 100"
  with False have "k div 10 < 10" by simp
  with False show ?thesis
    by (simp add: decimal.simps [of k] decimal.simps [of "k div 10"] padStart_def two_digits_def)
qed

lemma js_rem_nonneg: "0 \<le> s \<Longrightarrow> js_rem s 60 = spec_mod s 60"
  by (simp add: js_rem_def spec_mod_def js_trunc_def)

lemma spec_mod_60_range: "0 \<le> \<lfloor>spec_mod s 60\<rfloor> \<and> \<lfloor>spec_mod s 60\<rfloor> < 60"
proof -
  have 1: "of_int \<lfloor>s / 60\<rfloor> \<le> s / 60" by (rule of_int_floor_le)
  have 2: "s / 60 < of_int \<lfloor>s / 60\<rfloor> + 1" by linarith
  have "0 \<le> spec_mod s 60" using 1 by (simp add: spec_mod_def field_simps)
  moreover have "spec_mod s 60 < 60" using 2 by (simp add: spec_mod_def field_simps)
  ultimately show ?thesis by (simp add: floor_less_iff)
qed

lemma number_toString_small:
  assumes "0 \<le> n" "n < 2 ^ 53"
  shows "number_toString large n = decimal (nat n)"
proof -
  from assms have "\<bar>n\<bar> < 2 ^ 53" by (simp only: abs_of_nonneg)
  with assms(1) show ?thesis by (simp add: number_toString_def)
qed

lemma floor_quotient_rounded0:
  assumes "0 \<le> s" "s < 60 * 2 ^ 50" "is_double s"
  shows "\<lfloor>round_double (s / 60)\<rfloor> = \<lfloor>s / 60\<rfloor>"
proof (cases "s = 0")
  case True
  then show ?thesis by (simp add: round_double_def)
next
  case False
  with assms(1) have "0 < s" by simp
  then show ?thesis using assms(2,3) by (rule floor_quotient_rounded)
qed

text \<open>Rounding at given numbers.\<close>

lemma round_half_even_nearest:
  assumes "of_int k - 1 / 2 < y" "y < of_int k + 1 / 2"
  shows "round_half_even y = k"
proof (cases "of_int k \<le> y")
  case True
  with assms(2) have "\<lfloor>y\<rfloor> = k" by (intro floor_unique) simp_all
  with assms(2) show ?thesis by (simp add: round_half_even_def)
next
  case False
  with assms(1) have "\<lfloor>y\<rfloor> = k - 1" by (intro floor_unique) simp_all
  with assms(1) show ?thesis by (simp add: round_half_even_def)
qed

lemma round_double_eqI:
  assumes "2 powi e \<le> x" "x < 2 powi (e + 1)" "- 1022 \<le> e" "2 powi (e - 52) = u"
    and "of_int k - 1 / 2 < x / u" "x / u < of_int k + 1 / 2"
  shows "round_double x = of_int k * u"
proof -
  have x: "0 < x" using assms(1) zero_less_power_int [of "2::rat" e] by linarith
  have "binade x = e" using assms(1,2) by (rule binade_eqI)
  with x assms(3,4) have "ulp x = u" by (simp add: ulp_def)
  moreover have "round_half_even (x / u) = k" using assms(5,6) by (rule round_half_even_nearest)
  ultimately show ?thesis using x by (simp add: round_double_def)
qed

lemma quotient_rounds_up:
  "round_double (67553994410557496 / 60) = 1125899906842625"
proof -
  have "round_double (67553994410557496 / 60) = of_int 4503599627370500 * (1 / 4)"
    by (rule round_double_eqI [where e = 50]) (simp_all add: power_int_def power_one_over)
  then show ?thesis by simp
qed

lemma is_double_large: "is_double 67553994410557496"
proof -
  have "round_double 67553994410557496 = of_int 8444249301319687 * 8"
    by (rule round_double_eqI [where e = 55]) (simp_all add: power_int_def)
  then show ?thesis by (simp add: is_double_def)
qed

lemma is_double_65: "is_double 65"
proof -
  have "round_double 65 = of_int 4573968371548160 * (1 / 70368744177664)"
    by (rule round_double_eqI [where e = 6]) (simp_all add: power_int_def power_one_over)
  then show ?thesis by (simp add: is_double_def)
qed

lemma is_double_3599_5: "is_double 3599.5"
proof -
  have "round_double 3599.5 = of_int 7915384208359424 * (1 / 2199023255552)"
    by (rule round_double_eqI [where e = 11]) (simp_all add: power_int_def power_one_over)
  then show ?thesis by (simp add: is_double_def)
qed

lemma is_double_last: "is_double 67553994410557432"
proof -
  have "round_double 67553994410557432 = of_int 8444249301319679 * 8"
    by (rule round_double_eqI [where e = 55]) (simp_all add: power_int_def)
  then show ?thesis by (simp add: is_double_def)
qed

lemma formatDuration_spec_last: "formatDuration_spec 67553994410557432 = ''1125899906842623:52''"
proof -
  have fq: "\<lfloor>(67553994410557432::rat) / 60\<rfloor> = 1125899906842623"
    by (rule floor_unique) simp_all
  have sm: "\<lfloor>spec_mod 67553994410557432 60\<rfloor> = 52"
    by (simp only: spec_mod_def fq) simp
  have "formatDuration_spec 67553994410557432 =
      decimal (nat 1125899906842623) @ '':'' @ two_digits (nat 52)"
    by (simp only: formatDuration_spec_def fq sm)
  also have "\<dots> = ''1125899906842623:52''"
    by (simp add: two_digits_def decimal.simps digit_char_table)
  finally show ?thesis .
qed

text \<open>
  C7, as stated, fails: 67553994410557496 seconds is a non-negative double, and
  \<open>floor(s / 60)\<close> is 1125899906842624, but the quotient of the double division is
  rounded up to the next integer, so \<open>formatDuration\<close> prints the minutes
  1125899906842625.
\<close>

theorem C7_formatDuration_counterexample:
  "(0::rat) \<le> 67553994410557496 \<and> is_double 67553994410557496
   \<and> formatDuration (\<lambda>n. ''?'') 67553994410557496 = ''1125899906842625:56''
   \<and> formatDuration_spec 67553994410557496 = ''1125899906842624:56''
   \<and> formatDuration (\<lambda>n. ''?'') 67553994410557496 \<noteq> formatDuration_spec 67553994410557496"
proof -
  have fq: "\<lfloor>(67553994410557496::rat) / 60\<rfloor> = 1125899906842624"
    by (rule floor_unique) simp_all
  have mins: "\<lfloor>round_double (67553994410557496 / 60)\<rfloor> = 1125899906842625"
    by (simp only: quotient_rounds_up) simp
  have "js_trunc (67553994410557496 / 60) = 1125899906842624"
    by (simp only: js_trunc_def fq) simp
  then have secs: "\<lfloor>js_rem 67553994410557496 60\<rfloor> = 56"
    by (simp only: js_rem_def) simp
  have "formatDuration (\<lambda>n. ''?'') 67553994410557496 =
      number_toString (\<lambda>n. ''?'') 1125899906842625 @ '':'' @
        padStart 2 CHR ''0'' (number_toString (\<lambda>n. ''?'') 56)"
    by (simp only: formatDuration_def Let_def mins secs)
  also have "\<dots> = ''1125899906842625:56''"
    by (simp add: number_toString_def padStart_def decimal.simps digit_char_table)
  finally have 1: "formatDuration (\<lambda>n. ''?'') 67553994410557496 = ''1125899906842625:56''" .
  have sm: "\<lfloor>spec_mod 67553994410557496 60\<rfloor> = 56"
    by (simp only: spec_mod_def fq) simp
  have "formatDuration_spec 67553994410557496 =
      decimal (nat 1125899906842624) @ '':'' @ two_digits (nat 56)"
    by (simp only: formatDuration_spec_def fq sm)
  also have "\<dots> = ''1125899906842624:56''"
    by (simp add: two_digits_def decimal.simps digit_char_table)
  finally have 2: "formatDuration_spec 67553994410557496 = ''1125899906842624:56''" .
  from 1 2 is_double_large show ?thesis by simp
qed

text \<open>
  C7, amended. For every non-negative duration \<open>s\<close> in seconds, a double, below
  \<open>60 * 2^50\<close>, \<open>formatDuration s\<close> is the decimal numeral of \<open>floor(s / 60)\<close>, followed by a colon,
  followed by \<open>floor(s mod 60)\<close> as exactly two decimal digits, the first being \<open>0\<close>
  below ten. The minutes are a string of digits without a leading zero whose value
  is \<open>floor(s / 60)\<close>.
\<close>

theorem C7_formatDuration_minutes_below_2_50:
  assumes "0 \<le> s" "s < 60 * 2 ^ 50" "is_double s"
  shows "formatDuration large s = formatDuration_spec s
     \<and> decimal_numeral (decimal (nat \<lfloor>s / 60\<rfloor>))
     \<and> decimal_value (decimal (nat \<lfloor>s / 60\<rfloor>)) = nat \<lfloor>s / 60\<rfloor>"
proof -
  let ?m = "\<lfloor>s / 60\<rfloor>"
  let ?k = "\<lfloor>spec_mod s 60\<rfloor>"
  have m: "\<lfloor>round_double (s / 60)\<rfloor> = ?m"
    using assms by (rule floor_quotient_rounded0)
  have "0 \<le> s / 60" using assms(1) by simp
  then have m0: "0 \<le> ?m" by (simp only: zero_le_floor)
  have "s / 60 < 2 ^ 53" using assms(1,2) by simp
  then have "s / 60 < of_int (2 ^ 53)" by simp
  then have "?m < 2 ^ 53" by (simp only: floor_less_iff)
  with m0 have mins: "number_toString large ?m = decimal (nat ?m)"
    by (rule number_toString_small)
  from spec_mod_60_range [of s] have k: "0 \<le> ?k" "?k < 60" by blast+
  then have "?k < 2 ^ 53" by simp
  with k(1) have "number_toString large ?k = decimal (nat ?k)"
    by (rule number_toString_small)
  moreover have "nat ?k < 100" using k by linarith
  ultimately have secs: "padStart 2 CHR ''0'' (number_toString large ?k) = two_digits (nat ?k)"
    by (simp add: decimal_two_digits)
  have "formatDuration large s = formatDuration_spec s"
    using assms(1) by (simp add: formatDuration_def formatDuration_spec_def js_rem_nonneg m mins secs)
  then show ?thesis
    using decimal_numeral_decimal decimal_value_decimal by blast
qed

text \<open>
  65 seconds are shown as \<open>1:05\<close> and 3599.5 seconds as \<open>59:59\<close>; the last double
  below \<open>60 * 2^50\<close> is shown with its exact minutes.
\<close>

theorem C7_formatDuration_witness:
  "(0::rat) \<le> 65 \<and> (65::rat) < 60 * 2 ^ 50 \<and> is_double 65
   \<and> formatDuration (\<lambda>n. ''?'') 65 = ''1:05''
   \<and> (0::rat) \<le> 3599.5 \<and> (3599.5::rat) < 60 * 2 ^ 50 \<and> is_double 3599.5
   \<and> formatDuration (\<lambda>n. ''?'') 3599.5 = ''59:59''
   \<and> (0::rat) \<le> 67553994410557432 \<and> (67553994410557432::rat) < 60 * 2 ^ 50
   \<and> is_double 67553994410557432
   \<and> formatDuration (\<lambda>n. ''?'') 67553994410557432 = ''1125899906842623:52''"
proof -
  have 1: "formatDuration_spec 65 = ''1:05''"
    by code_simp
  have 2: "formatDuration_spec 3599.5 = ''59:59''"
    by code_simp
  show ?thesis
    using C7_formatDuration_minutes_below_2_50 [of 65 "\<lambda>n. ''?''"]
      C7_formatDuration_minutes_below_2_50 [of "3599.5" "\<lambda>n. ''?''"]
      C7_formatDuration_minutes_below_2_50 [of 67553994410557432 "\<lambda>n. ''?''"]
      is_double_65 is_double_3599_5 is_double_last 1 2 formatDuration_spec_last
    by simp
qed

section \<open>One frame of the visualizer\<close>

lemma bar_heights_append: "bar_heights (xs @ ys) = bar_heights xs @ bar_heights ys"
  by (induction xs rule: bar_heights.induct) simp_all

lemma bar_heights_draw_bars:
  "bar_heights (draw_bars height barWidth x dataArray) =
     filter (\<lambda>h. 0 < h) (map (\<lambda>v. of_nat (unat v) / 1.5) dataArray)"
  by (induction dataArray arbitrary: x) (simp_all add: Let_def)

lemma unsigned_rat_pos:
  fixes v :: "8 word"
  assumes "v \<noteq> 0"
  shows "0 < (unsigned v :: rat)"
proof -
  have "0 < unat v" using assms by (simp add: unat_gt_0)
  then have "(0::rat) < of_nat (unat v)" by (simp only: of_nat_0_less_iff)
  then show ?thesis by simp
qed

lemma draw_bars_member:
  "i < length dataArray \<Longrightarrow> dataArray ! i \<noteq> 0 \<Longrightarrow>
   FillRoundRect (x + of_nat i * (barWidth + 1)) (height - of_nat (unat (dataArray ! i)) / 1.5)
       barWidth (of_nat (unat (dataArray ! i)) / 1.5) 4
     \<in> set (draw_bars height barWidth x dataArray)"
proof (induction dataArray arbitrary: x i)
  case Nil
  then show ?case by simp
next
  case (Cons v rest)
  show ?case
  proof (cases i)
    case 0
    with Cons.prems have "v \<noteq> 0" by simp
    then have "0 < (unsigned v :: rat)" by (rule unsigned_rat_pos)
    with 0 show ?thesis by (simp add: Let_def)
  next
    case (Suc k)
    with Cons.prems have "k < length rest" "rest ! k \<noteq> 0" by simp_all
    from Cons.IH [OF this, of "x + barWidth + 1"]
    show ?thesis using Suc by (simp add: Let_def algebra_simps)
  qed
qed

text \<open>
  C8, as stated, fails: for a single bin with byte value 150, the bar that is drawn
  has height 100, not 150.
\<close>

theorem C8_bar_height_counterexample:
  "\<not> (bar_heights (draw True 600 128 [150]) ! 0 = of_nat (unat (150 :: 8 word)))"
  by (simp add: draw_def)

text \<open>
  C8, amended. On every animation frame drawn while recording, the bars are, in bin
  order, those of the bins whose byte value is not zero, each of height the byte
  value divided by 1.5; the bar of such a bin \<open>i\<close> is the rounded rectangle of width
  \<open>barWidth\<close> at \<open>x = i * (barWidth + 1)\<close> standing on the lower edge of the canvas.
  A bin whose byte is zero has no bar, and a frame drawn while not recording has none
  at all.
\<close>

theorem C8_bar_heights_scaled:
  "draw False width height dataArray = []
   \<and> bar_heights (draw True width height dataArray) =
       filter (\<lambda>h. 0 < h) (map (\<lambda>v. of_nat (unat v) / 1.5) dataArray)
   \<and> (\<forall>i < length dataArray. dataArray ! i \<noteq> 0 \<longrightarrow>
         FillRoundRect (of_nat i * (width / of_nat (length dataArray) * 2.5 + 1))
             (height - of_nat (unat (dataArray ! i)) / 1.5)
             (width / of_nat (length dataArray) * 2.5)
             (of_nat (unat (dataArray ! i)) / 1.5) 4
           \<in> set (draw True width height dataArray))"
proof (intro conjI allI impI)
  show "draw False width height dataArray = []" by (simp add: draw_def)
  show "bar_heights (draw True width height dataArray) =
       filter (\<lambda>h. 0 < h) (map (\<lambda>v. of_nat (unat v) / 1.5) dataArray)"
    by (simp add: draw_def Let_def bar_heights_draw_bars)
  fix i assume "i < length dataArray" "dataArray ! i \<noteq> 0"
  from draw_bars_member [OF this, of 0 "width / of_nat (length dataArray) * 2.5" height]
  show "FillRoundRect (of_nat i * (width / of_nat (length dataArray) * 2.5 + 1))
             (height - of_nat (unat (dataArray ! i)) / 1.5)
             (width / of_nat (length dataArray) * 2.5)
             (of_nat (unat (dataArray ! i)) / 1.5) 4
           \<in> set (draw True width height dataArray)"
    by (simp add: draw_def Let_def)
qed

text \<open>
  The bytes 150, 0, 3 on the 600 by 128 canvas give two bars, of heights 100 and 2;
  the second is the bar of bin 2.
\<close>

theorem C8_bar_heights_witness:
  "bar_heights (draw True 600 128 [150, 0, 3]) = [100, 2]
   \<and> (2::nat) < length [150, 0, 3 :: 8 word] \<and> [150, 0, 3 :: 8 word] ! 2 \<noteq> 0
   \<and> FillRoundRect 1002 126 500 2 4 \<in> set (draw True 600 128 [150, 0, 3])"
proof -
  note frame = C8_bar_heights_scaled [of 600 128 "[150, 0, 3]"]
  have i: "(2::nat) < length [150, 0, 3 :: 8 word]" "[150, 0, 3 :: 8 word] ! 2 \<noteq> 0"
    by simp_all
  from frame have "bar_heights (draw True 600 128 [150, 0, 3]) = [100, 2]"
    by simp
  moreover from frame [THEN conjunct2, THEN conjunct2, rule_format, OF i]
  have "FillRoundRect 1002 126 500 2 4 \<in> set (draw True 600 128 [150, 0, 3])"
    by simp
  ultimately show ?thesis
    using i by simp
qed

end
